theory Spec2Isabelle
  imports Complex_Main
begin

section \<open>Conventions of the embedding\<close>

text \<open>
  The Go package \<^verbatim>\<open>filters\<close> (the FIR filter of \<^verbatim>\<open>fir.go\<close>, the IIR filter and the
  Goertzel detector of \<^verbatim>\<open>goertzel_filter.go\<close>) is embedded shallowly.

  \<^item> Go's \<^verbatim>\<open>float64\<close> is modelled by \<^typ>\<open>real\<close>. In the FIR filter and in the
    construction, step and stability test of the IIR filter every arithmetic operation
    is exact; the frequency response and the Goertzel detector take the rounding of
    the arithmetic as a parameter, which can be the identity or rounding to binary64.
    Infinities and NaN are outside the model: where the source can produce one (a
    division by zero) the theorems carry the hypothesis that excludes it.
  \<^item> Go's \<^verbatim>\<open>int\<close> is modelled by \<^typ>\<open>int\<close>. Every integer of the package is a
    slice length, a cursor below a slice length or a counter bounded by
    \<^verbatim>\<open>totalN\<close>, so no operation wraps around.
  \<^item> A slice is a list. Reading or writing outside of it panics in Go; the model
    returns \<open>Panic\<close>.
  \<^item> A function that can panic or return an \<^verbatim>\<open>error\<close> returns a value of type
    \<open>'a result\<close>: \<open>Panic\<close> is the abort of the program with a message, \<open>Error\<close> is an
    error value handed back to the caller, \<open>Ok\<close> is the normal return.
  \<^item> A method with a pointer receiver that mutates the object takes the object and
    returns the updated one.
\<close>

datatype error =
    InvalidParameterError string real string
  | InvalidStateError string

datatype 'a result = is_Panic: Panic string | is_Error: Error error | is_Ok: Ok 'a

definition index_panic :: string where
  "index_panic = ''runtime error: index out of range''"

definition divide_panic :: string where
  "divide_panic = ''runtime error: integer divide by zero''"

text \<open>Go's \<^verbatim>\<open>%\<close> on integers truncates towards zero: the result has the sign of the dividend.\<close>

definition go_rem :: "int \<Rightarrow> int \<Rightarrow> int" where
  "go_rem a b = sgn a * (\<bar>a\<bar> mod \<bar>b\<bar>)"

text \<open>\<^verbatim>\<open>s[i]\<close> as a read and \<^verbatim>\<open>s[i] = v\<close> as a write, with the bounds check of the runtime.\<close>

definition in_range :: "'a list \<Rightarrow> int \<Rightarrow> bool" where
  "in_range s i = (0 \<le> i \<and> i < int (length s))"

definition read_at :: "'a list \<Rightarrow> int \<Rightarrow> 'a result" where
  "read_at s i = (if in_range s i then Ok (s ! nat i) else Panic index_panic)"

definition write_at :: "'a list \<Rightarrow> int \<Rightarrow> 'a \<Rightarrow> 'a list result" where
  "write_at s i v = (if in_range s i then Ok (s[nat i := v]) else Panic index_panic)"


section \<open>FIR filter (fir.go)\<close>

record FIRFilter =
  coeffs :: "real list"
  buffer :: "real list"
  pos :: int

text \<open>\<^verbatim>\<open>NewFIRFilter\<close>: panics on an empty slice, otherwise a zeroed buffer of the same
  length and the cursor on the last slot.\<close>

definition NewFIRFilter :: "real list \<Rightarrow> FIRFilter result" where
  "NewFIRFilter cs =
     (if length cs = 0 then Panic ''FIRFilter: coefficients cannot be empty''
      else Ok \<lparr>coeffs = cs, buffer = replicate (length cs) 0, pos = int (length cs) - 1\<rparr>)"

text \<open>The convolution loop of \<^verbatim>\<open>Tick\<close>: \<^verbatim>\<open>coeffIdx\<close> runs upwards over the coefficients,
  \<^verbatim>\<open>bufIdx\<close> runs downwards over the buffer and wraps from below zero to the last slot.\<close>

function fir_loop :: "real list \<Rightarrow> real list \<Rightarrow> nat \<Rightarrow> int \<Rightarrow> real \<Rightarrow> real result" where
  "fir_loop cs buf coeffIdx bufIdx output =
     (if coeffIdx < length cs then
        (case read_at buf bufIdx of
           Panic m \<Rightarrow> Panic m
         | Error e \<Rightarrow> Error e
         | Ok v \<Rightarrow>
             fir_loop cs buf (coeffIdx + 1)
               (if bufIdx - 1 < 0 then int (length buf) - 1 else bufIdx - 1)
               (output + cs ! coeffIdx * v))
      else Ok output)"
  by pat_completeness auto
termination
  by (relation "measure (\<lambda>(cs, buf, coeffIdx, bufIdx, output). length cs - coeffIdx)") auto

declare fir_loop.simps [simp del]

definition FIRFilter_Tick :: "FIRFilter \<Rightarrow> real \<Rightarrow> (FIRFilter \<times> real) result" where
  "FIRFilter_Tick f input =
     (if length (buffer f) = 0 then Panic divide_panic
      else
        let p = go_rem (pos f + 1) (int (length (buffer f))) in
        (case write_at (buffer f) p input of
           Panic m \<Rightarrow> Panic m
         | Error e \<Rightarrow> Error e
         | Ok buf \<Rightarrow>
             (case fir_loop (coeffs f) buf 0 p 0 of
                Panic m \<Rightarrow> Panic m
              | Error e \<Rightarrow> Error e
              | Ok output \<Rightarrow> Ok (f\<lparr>buffer := buf, pos := p\<rparr>, output))))"

definition FIRFilter_Reset :: "FIRFilter \<Rightarrow> FIRFilter" where
  "FIRFilter_Reset f = f\<lparr>buffer := map (\<lambda>_. 0) (buffer f), pos := int (length (buffer f)) - 1\<rparr>"

text \<open>A caller's loop that feeds the samples of a list to \<^verbatim>\<open>Tick\<close> one after the other and
  collects the outputs (the loops of \<^verbatim>\<open>fir_test.go\<close>); it stops at the first panic.\<close>

fun fir_ticks :: "FIRFilter \<Rightarrow> real list \<Rightarrow> (FIRFilter \<times> real list) result" where
  "fir_ticks f [] = Ok (f, [])"
| "fir_ticks f (x # xs) =
     (case FIRFilter_Tick f x of
        Panic m \<Rightarrow> Panic m
      | Error e \<Rightarrow> Error e
      | Ok (f', y) \<Rightarrow>
          (case fir_ticks f' xs of
             Panic m \<Rightarrow> Panic m
           | Error e \<Rightarrow> Error e
           | Ok (f'', ys) \<Rightarrow> Ok (f'', y # ys)))"

text \<open>The states of a filter: what \<^verbatim>\<open>NewFIRFilter\<close> returns, and what \<^verbatim>\<open>Tick\<close> and
  \<^verbatim>\<open>Reset\<close> make of a state.\<close>

inductive fir_reachable :: "real list \<Rightarrow> FIRFilter \<Rightarrow> bool" for cs :: "real list" where
  fir_new: "NewFIRFilter cs = Ok f \<Longrightarrow> fir_reachable cs f"
| fir_tick: "fir_reachable cs f \<Longrightarrow> FIRFilter_Tick f x = Ok (f', y) \<Longrightarrow> fir_reachable cs f'"
| fir_reset: "fir_reachable cs f \<Longrightarrow> fir_reachable cs (FIRFilter_Reset f)"

text \<open>The invariant of the data model (\<open>fir_wf\<close>): the buffer is as long as the coefficient
  sequence, which is not empty, and the cursor is inside the buffer.\<close>

definition fir_wf :: "FIRFilter \<Rightarrow> bool" where
  "fir_wf f = (coeffs f \<noteq> [] \<and> length (buffer f) = length (coeffs f) \<and>
               0 \<le> pos f \<and> pos f < int (length (buffer f)))"

text \<open>The ring buffer holds a history \<open>h\<close> (\<open>h k\<close> is the sample fed \<open>k\<close> ticks ago) when
  the slot \<open>k\<close> places behind the cursor holds \<open>h k\<close>.\<close>

definition fir_hist :: "FIRFilter \<Rightarrow> (nat \<Rightarrow> real) \<Rightarrow> bool" where
  "fir_hist f h = (\<forall>k<length (buffer f).
      buffer f ! nat ((pos f - int k) mod int (length (buffer f))) = h k)"

text \<open>The sample that was fed \<open>i\<close> ticks before tick number \<open>n\<close> of the input \<open>xs\<close>;
  zero before the first sample.\<close>

definition past :: "real list \<Rightarrow> nat \<Rightarrow> nat \<Rightarrow> real" where
  "past xs n i = (if i \<le> n then xs ! (n - i) else 0)"

text \<open>The same for a filter that starts with the history \<open>h\<close> in its buffer.\<close>

definition hist_at :: "real list \<Rightarrow> (nat \<Rightarrow> real) \<Rightarrow> nat \<Rightarrow> nat \<Rightarrow> real" where
  "hist_at xs h n i = (if i \<le> n then xs ! (n - i) else h (i - n - 1))"


section \<open>IIR filter\<close>

record IIRFilter =
  bCoeffs :: "real list"
  aCoeffs :: "real list"
  xBuffer :: "real list"
  yBuffer :: "real list"
  xPos :: int
  yPos :: int
  order :: int

text \<open>\<^verbatim>\<open>NewIIRFilter\<close>: panics on an empty slice. When \<^verbatim>\<open>aCoeffs[0]\<close> is farther than
  \<open>1e-10\<close> from one, both loops divide every coefficient by \<^verbatim>\<open>normalizer\<close>, the value
  \<^verbatim>\<open>aCoeffs[0]\<close> had before the loops. The source writes the quotients into the
  caller's slices and copies them afterwards; the model takes the two slices as values,
  which is the behaviour for slices that share no memory.\<close>

definition NewIIRFilter :: "real list \<Rightarrow> real list \<Rightarrow> IIRFilter result" where
  "NewIIRFilter bC aC =
     (if length bC = 0 then Panic ''IIRFilter: b coefficients cannot be empty''
      else if length aC = 0 then Panic ''IIRFilter: a coefficients cannot be empty''
      else
        let normalizer = aC ! 0;
            scale = \<bar>aC ! 0 - 1\<bar> > 1 / 10 ^ 10;
            bC' = (if scale then map (\<lambda>c. c / normalizer) bC else bC);
            aC' = (if scale then map (\<lambda>c. c / normalizer) aC else aC)
        in Ok \<lparr>bCoeffs = bC', aCoeffs = aC',
                xBuffer = replicate (length bC') 0, yBuffer = replicate (length aC') 0,
                xPos = 0, yPos = 0,
                order = max (int (length bC')) (int (length aC')) - 1\<rparr>)"

text \<open>The index computation of both loops of \<^verbatim>\<open>Tick\<close>:
  \<^verbatim>\<open>idx := (pos - i) % len(buf); if idx < 0 { idx += len(buf) }\<close>, then the read.\<close>

definition ring_read :: "real list \<Rightarrow> int \<Rightarrow> nat \<Rightarrow> real result" where
  "ring_read buf p i =
     (if length buf = 0 then Panic divide_panic
      else
        let idx = go_rem (p - int i) (int (length buf));
            idx' = (if idx < 0 then idx + int (length buf) else idx)
        in read_at buf idx')"

text \<open>The feedforward loop, \<^verbatim>\<open>output += bCoeffs[i] * xBuffer[idx]\<close> for \<open>i\<close> from \<open>0\<close>.\<close>

function feedforward :: "real list \<Rightarrow> real list \<Rightarrow> int \<Rightarrow> nat \<Rightarrow> real \<Rightarrow> real result" where
  "feedforward bC xb p i output =
     (if i < length bC then
        (case ring_read xb p i of
           Panic m \<Rightarrow> Panic m
         | Error e \<Rightarrow> Error e
         | Ok v \<Rightarrow> feedforward bC xb p (i + 1) (output + bC ! i * v))
      else Ok output)"
  by pat_completeness auto
termination
  by (relation "measure (\<lambda>(bC, xb, p, i, output). length bC - i)") auto

declare feedforward.simps [simp del]

text \<open>The feedback loop, \<^verbatim>\<open>output -= aCoeffs[i] * yBuffer[idx]\<close> for \<open>i\<close> from \<open>1\<close>.\<close>

function feedback :: "real list \<Rightarrow> real list \<Rightarrow> int \<Rightarrow> nat \<Rightarrow> real \<Rightarrow> real result" where
  "feedback aC yb p i output =
     (if i < length aC then
        (case ring_read yb p i of
           Panic m \<Rightarrow> Panic m
         | Error e \<Rightarrow> Error e
         | Ok v \<Rightarrow> feedback aC yb p (i + 1) (output - aC ! i * v))
      else Ok output)"
  by pat_completeness auto
termination
  by (relation "measure (\<lambda>(aC, yb, p, i, output). length aC - i)") auto

declare feedback.simps [simp del]

definition IIRFilter_Tick :: "IIRFilter \<Rightarrow> real \<Rightarrow> (IIRFilter \<times> real) result" where
  "IIRFilter_Tick f input =
     (case write_at (xBuffer f) (xPos f) input of
        Panic m \<Rightarrow> Panic m
      | Error e \<Rightarrow> Error e
      | Ok xb \<Rightarrow>
          (case feedforward (bCoeffs f) xb (xPos f) 0 0 of
             Panic m \<Rightarrow> Panic m
           | Error e \<Rightarrow> Error e
           | Ok ff \<Rightarrow>
               (case feedback (aCoeffs f) (yBuffer f) (yPos f) 1 ff of
                  Panic m \<Rightarrow> Panic m
                | Error e \<Rightarrow> Error e
                | Ok output \<Rightarrow>
                    (case write_at (yBuffer f) (yPos f) output of
                       Panic m \<Rightarrow> Panic m
                     | Error e \<Rightarrow> Error e
                     | Ok yb \<Rightarrow>
                         if length xb = 0 \<or> length yb = 0 then Panic divide_panic
                         else Ok (f\<lparr>xBuffer := xb, yBuffer := yb,
                                    xPos := go_rem (xPos f + 1) (int (length xb)),
                                    yPos := go_rem (yPos f + 1) (int (length yb))\<rparr>,
                                  output)))))"

definition IIRFilter_Reset :: "IIRFilter \<Rightarrow> IIRFilter" where
  "IIRFilter_Reset f =
     f\<lparr>xBuffer := map (\<lambda>_. 0) (xBuffer f), yBuffer := map (\<lambda>_. 0) (yBuffer f),
       xPos := 0, yPos := 0\<rparr>"

text \<open>\<^verbatim>\<open>Process\<close>: \<^verbatim>\<open>Tick\<close> on every sample in order, the outputs collected.\<close>

fun IIRFilter_Process :: "IIRFilter \<Rightarrow> real list \<Rightarrow> (IIRFilter \<times> real list) result" where
  "IIRFilter_Process f [] = Ok (f, [])"
| "IIRFilter_Process f (x # xs) =
     (case IIRFilter_Tick f x of
        Panic m \<Rightarrow> Panic m
      | Error e \<Rightarrow> Error e
      | Ok (f', y) \<Rightarrow>
          (case IIRFilter_Process f' xs of
             Panic m \<Rightarrow> Panic m
           | Error e \<Rightarrow> Error e
           | Ok (f'', ys) \<Rightarrow> Ok (f'', y # ys)))"


text \<open>
  \<^verbatim>\<open>GetFrequencyResponse\<close> chooses a branch by comparing computed sums with zero, so
  it takes the rounding \<open>fl\<close> of the arithmetic as a parameter, like the functions of the
  Goertzel detector below: every \<^verbatim>\<open>float64\<close> operation \<open>x op y\<close> of the source is
  \<open>fl (x op y)\<close>. With \<open>exact\<close> for \<open>fl\<close> the arithmetic is that of the reals, with
  \<open>float64\<close> it is IEEE 754 binary64.
\<close>

definition exact :: "real \<Rightarrow> real" where
  "exact x = x"







text \<open>The design factories. Each checks its arguments, panics on a bad one, computes the
  coefficients and hands them to \<^verbatim>\<open>NewIIRFilter\<close>.\<close>

definition cutoff_panic :: string where
  "cutoff_panic = ''IIRFilter: cutoff frequency must be between 0 and 0.5''"

definition q_panic :: string where
  "q_panic = ''IIRFilter: Q must be positive''"

definition NewFirstOrderLowPass :: "real \<Rightarrow> IIRFilter result" where
  "NewFirstOrderLowPass fc =
     (if fc \<le> 0 \<or> fc \<ge> 1 / 2 then Panic cutoff_panic
      else
        let alpha = tan (pi * fc);
            b0 = alpha / (1 + alpha);
            b1 = b0;
            a1 = (1 - alpha) / (1 + alpha)
        in NewIIRFilter [b0, b1] [1, - a1])"

definition NewFirstOrderHighPass :: "real \<Rightarrow> IIRFilter result" where
  "NewFirstOrderHighPass fc =
     (if fc \<le> 0 \<or> fc \<ge> 1 / 2 then Panic cutoff_panic
      else
        let alpha = tan (pi * fc);
            b0 = 1 / (1 + alpha);
            b1 = - b0;
            a1 = (1 - alpha) / (1 + alpha)
        in NewIIRFilter [b0, b1] [1, - a1])"

text \<open>The three biquads share the part after the numerator: \<^verbatim>\<open>a0\<close>, \<^verbatim>\<open>a1\<close>, \<^verbatim>\<open>a2\<close>, the
  division of all five coefficients by \<^verbatim>\<open>a0\<close> and the call of the constructor.\<close>

definition biquad :: "real \<Rightarrow> real \<Rightarrow> real \<Rightarrow> real \<Rightarrow> real \<Rightarrow> IIRFilter result" where
  "biquad alpha cosW0 b0 b1 b2 =
     (let a0 = 1 + alpha;
          a1 = - 2 * cosW0;
          a2 = 1 - alpha
      in NewIIRFilter [b0 / a0, b1 / a0, b2 / a0] [1, a1 / a0, a2 / a0])"

definition NewSecondOrderLowPass :: "real \<Rightarrow> real \<Rightarrow> IIRFilter result" where
  "NewSecondOrderLowPass fc Q =
     (if fc \<le> 0 \<or> fc \<ge> 1 / 2 then Panic cutoff_panic
      else if Q \<le> 0 then Panic q_panic
      else
        let w0 = 2 * pi * fc;
            alpha = sin w0 / (2 * Q);
            cosW0 = cos w0
        in biquad alpha cosW0 ((1 - cosW0) / 2) (1 - cosW0) ((1 - cosW0) / 2))"

definition NewSecondOrderHighPass :: "real \<Rightarrow> real \<Rightarrow> IIRFilter result" where
  "NewSecondOrderHighPass fc Q =
     (if fc \<le> 0 \<or> fc \<ge> 1 / 2 then Panic cutoff_panic
      else if Q \<le> 0 then Panic q_panic
      else
        let w0 = 2 * pi * fc;
            alpha = sin w0 / (2 * Q);
            cosW0 = cos w0
        in biquad alpha cosW0 ((1 + cosW0) / 2) (- (1 + cosW0)) ((1 + cosW0) / 2))"

definition NewSecondOrderBandPass :: "real \<Rightarrow> real \<Rightarrow> IIRFilter result" where
  "NewSecondOrderBandPass fc Q =
     (if fc \<le> 0 \<or> fc \<ge> 1 / 2 then Panic cutoff_panic
      else if Q \<le> 0 then Panic q_panic
      else
        let w0 = 2 * pi * fc;
            alpha = sin w0 / (2 * Q);
            cosW0 = cos w0
        in biquad alpha cosW0 alpha 0 (- alpha))"

definition NewFirstOrderLowPassExp :: "real \<Rightarrow> IIRFilter result" where
  "NewFirstOrderLowPassExp fc =
     (if fc \<le> 0 \<or> fc \<ge> 1 / 2 then Panic cutoff_panic
      else
        let alpha = 1 - exp (- 2 * pi * fc)
        in NewIIRFilter [alpha] [1, - (1 - alpha)])"

definition NewFirstOrderHighPassExp :: "real \<Rightarrow> IIRFilter result" where
  "NewFirstOrderHighPassExp fc =
     (if fc \<le> 0 \<or> fc \<ge> 1 / 2 then Panic cutoff_panic
      else
        let alpha = 1 - exp (- 2 * pi * fc);
            b0 = (1 + alpha) / 2;
            b1 = - b0;
            a1 = - (1 - alpha)
        in NewIIRFilter [b0, b1] [1, a1])"

text \<open>The states of a filter built from the slices \<open>bC\<close> and \<open>aC\<close>.\<close>

inductive iir_reachable :: "real list \<Rightarrow> real list \<Rightarrow> IIRFilter \<Rightarrow> bool"
  for bC :: "real list" and aC :: "real list" where
  iir_new: "NewIIRFilter bC aC = Ok f \<Longrightarrow> iir_reachable bC aC f"
| iir_tick: "iir_reachable bC aC f \<Longrightarrow> IIRFilter_Tick f x = Ok (f', y) \<Longrightarrow> iir_reachable bC aC f'"
| iir_process: "iir_reachable bC aC f \<Longrightarrow> IIRFilter_Process f xs = Ok (f', ys) \<Longrightarrow>
                iir_reachable bC aC f'"
| iir_reset: "iir_reachable bC aC f \<Longrightarrow> iir_reachable bC aC (IIRFilter_Reset f)"

text \<open>The invariant of the data model: each buffer is as long as its coefficient
  sequence, neither is empty, and each cursor is inside its buffer.\<close>

definition iir_wf :: "IIRFilter \<Rightarrow> bool" where
  "iir_wf f = (bCoeffs f \<noteq> [] \<and> aCoeffs f \<noteq> [] \<and>
               length (xBuffer f) = length (bCoeffs f) \<and>
               length (yBuffer f) = length (aCoeffs f) \<and>
               0 \<le> xPos f \<and> xPos f < int (length (xBuffer f)) \<and>
               0 \<le> yPos f \<and> yPos f < int (length (yBuffer f)))"

text \<open>A ring buffer \<open>buf\<close> with cursor \<open>p\<close> (the slot of the next write) holds the history
  \<open>h\<close> when the slot \<open>k + 1\<close> places behind the cursor holds \<open>h k\<close>, the value written \<open>k + 1\<close>
  ticks ago. The last slot of a full turn is the cursor's own.\<close>

definition ring_hist :: "real list \<Rightarrow> int \<Rightarrow> (nat \<Rightarrow> real) \<Rightarrow> bool" where
  "ring_hist buf p h = (\<forall>k. k + 1 < length buf \<longrightarrow>
      buf ! nat ((p - 1 - int k) mod int (length buf)) = h k)"


section \<open>Goertzel detector (goertzel_filter.go)\<close>

text \<open>
  The specification of the detector speaks about rounding error (two formulas that are
  equal in exact arithmetic ``agree to within \<open>1e-10\<close>''). Its functions therefore take
  the rounding \<open>fl\<close> of the arithmetic as a parameter: every \<^verbatim>\<open>float64\<close> operation
  \<open>x op y\<close> of the source is \<open>fl (x op y)\<close>, in the source's order of evaluation. With
  \<open>exact\<close> for \<open>fl\<close> the arithmetic is that of the reals; with \<open>float64\<close> it is IEEE 754
  binary64.
\<close>

text \<open>Rounding to the nearest integer, a tie to the even one.\<close>

definition round_half_even :: "real \<Rightarrow> int" where
  "round_half_even m =
     (let f = \<lfloor>m\<rfloor> in
      if m - of_int f < 1 / 2 then f
      else if m - of_int f > 1 / 2 then f + 1
      else if even f then f else f + 1)"

text \<open>The binary64 value nearest to a real number (round to nearest, ties to even): 53
  significant bits at the exponent of the number. Overflow and subnormal numbers are
  left out; the function is binary64 rounding for \<open>2^-1022 \<le> |x| < 2^1024\<close>.\<close>

definition float64 :: "real \<Rightarrow> real" where
  "float64 x =
     (if x = 0 then 0
      else
        let e = \<lfloor>log 2 \<bar>x\<bar>\<rfloor> - 52
        in of_int (round_half_even (x / 2 powr of_int e)) * 2 powr of_int e)"

text \<open>The fields \<^verbatim>\<open>k\<close>, \<^verbatim>\<open>w\<close> and \<^verbatim>\<open>n\<close> of the struct are \<open>gf_k\<close>, \<open>gf_w\<close> and \<open>gf_n\<close> here.\<close>

record GoertzelFilter =
  gf_k :: int
  gf_w :: real
  cosW :: real
  sinW :: real
  q1 :: real
  q2 :: real
  gf_n :: int
  totalN :: int
  coeff :: real

text \<open>The conversion \<^verbatim>\<open>int(x)\<close> of a \<^verbatim>\<open>float64\<close> drops the fraction (rounds towards zero).\<close>

definition go_int :: "real \<Rightarrow> int" where
  "go_int x = (if 0 \<le> x then \<lfloor>x\<rfloor> else \<lceil>x\<rceil>)"

text \<open>\<^verbatim>\<open>NewGoertzelFilter\<close>. The constant expression \<^verbatim>\<open>2 * math.Pi\<close> is folded exactly before
  it is rounded; \<^verbatim>\<open>math.Cos\<close> and \<^verbatim>\<open>math.Sin\<close> are taken as the rounded cosine and sine.\<close>

definition NewGoertzelFilter ::
  "(real \<Rightarrow> real) \<Rightarrow> real \<Rightarrow> real \<Rightarrow> int \<Rightarrow> GoertzelFilter result" where
  "NewGoertzelFilter fl freq samplingRate N =
     (if freq \<le> 0 then
        Error (InvalidParameterError ''freq'' freq ''frequency must be positive'')
      else if samplingRate \<le> 0 then
        Error (InvalidParameterError ''samplingRate'' samplingRate
                 ''sampling rate must be positive'')
      else if N \<le> 0 then
        Error (InvalidParameterError ''totalN'' (fl (real_of_int N))
                 ''total samples must be positive'')
      else if freq \<ge> fl (samplingRate / 2) then
        Error (InvalidParameterError ''freq'' freq
                 ''frequency must be less than Nyquist frequency (samplingRate/2)'')
      else
        let k0 = go_int (fl (1 / 2 + fl (fl (fl (real_of_int N) * freq) / samplingRate)));
            k = (if k0 \<ge> N then N - 1 else k0);
            w = fl (fl (fl (2 * pi) * fl (real_of_int k)) / fl (real_of_int N));
            c = fl (cos w);
            s = fl (sin w)
        in Ok \<lparr>gf_k = k, gf_w = w, cosW = c, sinW = s, q1 = 0, q2 = 0,
                gf_n = 0, totalN = N, coeff = fl (2 * c)\<rparr>)"

text \<open>The methods have a pointer receiver and test it against \<^verbatim>\<open>nil\<close>: the receiver is
  an option, \<open>None\<close> for \<^verbatim>\<open>nil\<close>. \<^verbatim>\<open>Process\<close> and \<^verbatim>\<open>Reset\<close> return the updated detector
  where the source returns the \<^verbatim>\<open>nil\<close> error.\<close>

definition not_initialized :: error where
  "not_initialized = InvalidStateError ''filter is not initialized''"

definition Process ::
  "(real \<Rightarrow> real) \<Rightarrow> GoertzelFilter option \<Rightarrow> real \<Rightarrow> GoertzelFilter result" where
  "Process fl r input =
     (case r of
        None \<Rightarrow> Error not_initialized
      | Some gf \<Rightarrow>
          if gf_n gf \<ge> totalN gf then
            Error (InvalidStateError ''all samples have already been processed'')
          else
            let q0 = fl (fl (input + fl (coeff gf * q1 gf)) - q2 gf)
            in Ok (gf\<lparr>q2 := q1 gf, q1 := q0, gf_n := gf_n gf + 1\<rparr>))"

definition Reset :: "GoertzelFilter option \<Rightarrow> GoertzelFilter result" where
  "Reset r =
     (case r of
        None \<Rightarrow> Error not_initialized
      | Some gf \<Rightarrow> Ok (gf\<lparr>q1 := 0, q2 := 0, gf_n := 0\<rparr>))"

definition GetMagnitude :: "(real \<Rightarrow> real) \<Rightarrow> GoertzelFilter option \<Rightarrow> real result" where
  "GetMagnitude fl r =
     (case r of
        None \<Rightarrow> Error not_initialized
      | Some gf \<Rightarrow>
          if gf_n gf = 0 then Error (InvalidStateError ''no samples have been processed yet'')
          else
            let magnitudeSquared =
                  fl (fl (fl (q1 gf * q1 gf) + fl (q2 gf * q2 gf))
                      - fl (fl (coeff gf * q1 gf) * q2 gf))
            in if magnitudeSquared < 0 then Ok 0
               else Ok (fl (fl (2 * fl (sqrt magnitudeSquared)) / fl (real_of_int (totalN gf)))))"

definition GetMagnitudeOptimized ::
  "(real \<Rightarrow> real) \<Rightarrow> GoertzelFilter option \<Rightarrow> real result" where
  "GetMagnitudeOptimized fl r =
     (case r of
        None \<Rightarrow> Error not_initialized
      | Some gf \<Rightarrow>
          if gf_n gf = 0 then Error (InvalidStateError ''no samples have been processed yet'')
          else
            let realPart = fl (q1 gf - fl (q2 gf * cosW gf));
                imagPart = fl (q2 gf * sinW gf);
                magnitudeSquared = fl (fl (realPart * realPart) + fl (imagPart * imagPart))
            in if magnitudeSquared < 0 then Ok 0
               else Ok (fl (fl (2 * fl (sqrt magnitudeSquared)) / fl (real_of_int (totalN gf)))))"

definition IsComplete :: "GoertzelFilter option \<Rightarrow> bool" where
  "IsComplete r = (case r of None \<Rightarrow> False | Some gf \<Rightarrow> gf_n gf \<ge> totalN gf)"

text \<open>The states of a detector built by \<^verbatim>\<open>NewGoertzelFilter\<close>, under the arithmetic \<open>fl\<close>.\<close>

inductive goertzel_reachable :: "(real \<Rightarrow> real) \<Rightarrow> GoertzelFilter \<Rightarrow> bool"
  for fl :: "real \<Rightarrow> real" where
  gz_new: "NewGoertzelFilter fl freq samplingRate N = Ok gf \<Longrightarrow> goertzel_reachable fl gf"
| gz_process: "goertzel_reachable fl gf \<Longrightarrow> Process fl (Some gf) input = Ok gf' \<Longrightarrow>
               goertzel_reachable fl gf'"
| gz_reset: "goertzel_reachable fl gf \<Longrightarrow> Reset (Some gf) = Ok gf' \<Longrightarrow>
             goertzel_reachable fl gf'"

text \<open>What construction establishes in exact arithmetic and no method changes.\<close>

definition goertzel_inv :: "GoertzelFilter \<Rightarrow> bool" where
  "goertzel_inv gf = (0 < totalN gf \<and> cosW gf = cos (gf_w gf) \<and> sinW gf = sin (gf_w gf) \<and>
                      coeff gf = 2 * cos (gf_w gf))"

text \<open>The radicand of \<^verbatim>\<open>GetMagnitude\<close>, in exact arithmetic.\<close>

definition radicand :: "GoertzelFilter \<Rightarrow> real" where
  "radicand gf = q1 gf * q1 gf + q2 gf * q2 gf - coeff gf * q1 gf * q2 gf"


section \<open>Properties of the FIR filter\<close>

lemma go_rem_nonneg: "0 \<le> a \<Longrightarrow> 0 < b \<Longrightarrow> go_rem a b = a mod b"
  by (cases "a = 0") (simp_all add: go_rem_def)

lemma wrap_down:
  "0 \<le> b \<Longrightarrow> b < N \<Longrightarrow> (if b - 1 < 0 then N - 1 else b - 1) = (b - 1) mod (N::int)"
proof (cases "b = 0")
  case True
  assume "b < N"
  with True have "0 < N" by simp
  then show ?thesis using True by (simp add: zmod_minus1)
next
  case False
  assume "0 \<le> b" "b < N"
  with False show ?thesis by simp
qed

lemma fir_loop_sum:
  "length buf = N \<Longrightarrow> 0 \<le> bufIdx \<Longrightarrow> bufIdx < int N \<Longrightarrow>
    fir_loop cs buf coeffIdx bufIdx acc =
      Ok (acc + (\<Sum>j<length cs - coeffIdx. cs ! (coeffIdx + j) * buf ! nat ((bufIdx - int j) mod int N)))"
proof (induction cs buf coeffIdx bufIdx acc rule: fir_loop.induct)
  case (1 cs buf coeffIdx bufIdx acc)
  show ?case
  proof (cases "coeffIdx < length cs")
    case False
    then show ?thesis by (simp add: fir_loop.simps)
  next
    case True
    define b' where "b' = (if bufIdx - 1 < 0 then int (length buf) - 1 else bufIdx - 1)"
    have rd: "read_at buf bufIdx = Ok (buf ! nat bufIdx)"
      using 1 by (simp add: read_at_def in_range_def)
    have b'mod: "b' = (bufIdx - 1) mod int N"
      unfolding b'_def "1.prems"(1) by (rule wrap_down) (use "1.prems" in auto)
    have b': "0 \<le> b'" "b' < int N" using "1.prems" by (simp_all add: b'mod)
    have IH: "fir_loop cs buf (coeffIdx + 1) b' (acc + cs ! coeffIdx * (buf ! nat bufIdx)) =
      Ok (acc + cs ! coeffIdx * (buf ! nat bufIdx) +
         (\<Sum>j<length cs - (coeffIdx + 1). cs ! (coeffIdx + 1 + j) * buf ! nat ((b' - int j) mod int N)))"
      using "1.IH"[OF True rd "1.prems"(1) b'[unfolded b'_def]] unfolding b'_def .
    have shift: "(b' - int j) mod int N = (bufIdx - int (Suc j)) mod int N" for j
      by (subst b'mod) (simp add: mod_diff_left_eq algebra_simps)
    have len: "length cs - coeffIdx = Suc (length cs - (coeffIdx + 1))" using True by simp
    have b0: "bufIdx mod int N = bufIdx" using "1.prems" by simp
    have "fir_loop cs buf coeffIdx bufIdx acc =
          fir_loop cs buf (coeffIdx + 1) b' (acc + cs ! coeffIdx * (buf ! nat bufIdx))"
      by (subst fir_loop.simps) (simp only: True if_True rd result.case b'_def)
    also note IH
    also have "acc + cs ! coeffIdx * (buf ! nat bufIdx) +
         (\<Sum>j<length cs - (coeffIdx + 1). cs ! (coeffIdx + 1 + j) * buf ! nat ((b' - int j) mod int N))
       = acc + (\<Sum>j<length cs - coeffIdx. cs ! (coeffIdx + j) * buf ! nat ((bufIdx - int j) mod int N))"
      unfolding len sum.lessThan_Suc_shift shift by (simp add: b0)
    finally show ?thesis .
  qed
qed

lemma fir_Tick_step:
  fixes f :: FIRFilter and x :: real
  assumes wf: "fir_wf f"
  defines "N \<equiv> length (coeffs f)"
  defines "p \<equiv> (pos f + 1) mod int N"
  defines "buf \<equiv> (buffer f)[nat p := x]"
  shows "FIRFilter_Tick f x = Ok (f\<lparr>buffer := buf, pos := p\<rparr>,
           \<Sum>i<N. coeffs f ! i * buf ! nat ((p - int i) mod int N))"
proof -
  have N: "0 < N" "length (buffer f) = N" and ps: "0 \<le> pos f" "pos f < int N"
    using wf by (auto simp: fir_wf_def N_def)
  have p: "0 \<le> p" "p < int N" using N by (simp_all add: p_def)
  have rem: "go_rem (pos f + 1) (int (length (buffer f))) = p"
    using ps N by (simp add: go_rem_nonneg p_def)
  have wr: "write_at (buffer f) p x = Ok buf"
    using p N by (simp add: write_at_def in_range_def buf_def)
  have lb: "length buf = N" using N by (simp add: buf_def)
  have loop: "fir_loop (coeffs f) buf 0 p 0 =
      Ok (\<Sum>i<N. coeffs f ! i * buf ! nat ((p - int i) mod int N))"
    using fir_loop_sum[OF lb p, of "coeffs f" 0 0] by (simp add: N_def)
  show ?thesis
    unfolding FIRFilter_Tick_def Let_def rem using N(2) N(1) by (simp add: wr loop)
qed

lemma fir_Tick_wf:
  assumes "fir_wf f" "FIRFilter_Tick f x = Ok (f', y)"
  shows "fir_wf f' \<and> coeffs f' = coeffs f"
  using assms fir_Tick_step[OF assms(1), of x]
  by (auto simp: fir_wf_def)

lemma fir_New_wf: "NewFIRFilter cs = Ok f \<Longrightarrow> fir_wf f \<and> coeffs f = cs"
  by (auto simp: NewFIRFilter_def fir_wf_def split: if_splits)

lemma fir_Reset_wf: "fir_wf f \<Longrightarrow> fir_wf (FIRFilter_Reset f) \<and> coeffs (FIRFilter_Reset f) = coeffs f"
  by (auto simp: FIRFilter_Reset_def fir_wf_def)

lemma fir_reachable_wf: "fir_reachable cs f \<Longrightarrow> fir_wf f \<and> coeffs f = cs"
proof (induction rule: fir_reachable.induct)
  case (fir_new f)
  then show ?case by (rule fir_New_wf)
next
  case (fir_tick f x f' y)
  then show ?case using fir_Tick_wf by metis
next
  case (fir_reset f)
  then show ?case using fir_Reset_wf by metis
qed

lemma fir_Reset_fresh:
  assumes "fir_wf f"
  shows "NewFIRFilter (coeffs f) = Ok (FIRFilter_Reset f)"
proof -
  have "map (\<lambda>_. 0::real) (buffer f) = replicate (length (coeffs f)) 0"
    using assms by (simp add: fir_wf_def map_replicate_const)
  then show ?thesis using assms
    by (simp add: NewFIRFilter_def FIRFilter_Reset_def fir_wf_def)
qed

lemma ring_slot_distinct:
  fixes c :: int
  assumes "0 < N" "j + 1 < N" "0 \<le> j"
  shows "(c - j) mod N \<noteq> (c + 1) mod N"
proof
  assume "(c - j) mod N = (c + 1) mod N"
  then have "N dvd (c + 1) - (c - j)" by (metis mod_eq_dvd_iff)
  then have "N dvd j + 1" by (simp add: algebra_simps)
  then have "N \<le> j + 1" using assms by (intro zdvd_imp_le) auto
  then show False using assms by simp
qed

lemma fir_Tick_hist:
  assumes wf: "fir_wf f" and h: "fir_hist f h" and t: "FIRFilter_Tick f x = Ok (f', y)"
  shows "fir_hist f' (case_nat x h) \<and> y = (\<Sum>i<length (coeffs f). coeffs f ! i * case_nat x h i)"
proof -
  define N where "N = length (coeffs f)"
  define p where "p = (pos f + 1) mod int N"
  define buf where "buf = (buffer f)[nat p := x]"
  have N: "0 < N" "length (buffer f) = N" and ps: "0 \<le> pos f" "pos f < int N"
    using wf by (auto simp: fir_wf_def N_def)
  have p: "0 \<le> p" "p < int N" using N by (simp_all add: p_def)
  have f': "f' = f\<lparr>buffer := buf, pos := p\<rparr>"
    and y: "y = (\<Sum>i<N. coeffs f ! i * buf ! nat ((p - int i) mod int N))"
    using fir_Tick_step[OF wf, of x] t by (simp_all add: N_def p_def buf_def)
  have slot: "buf ! nat ((p - int k) mod int N) = case_nat x h k" if k: "k < N" for k
  proof (cases k)
    case 0
    then show ?thesis using p N by (simp add: buf_def)
  next
    case (Suc j)
    have e: "(p - int (Suc j)) mod int N = (pos f - int j) mod int N"
      unfolding p_def by (simp add: mod_diff_left_eq algebra_simps)
    have "(pos f - int j) mod int N \<noteq> (pos f + 1) mod int N"
      using k Suc N by (intro ring_slot_distinct) auto
    moreover have "0 \<le> (pos f - int j) mod int N" using N by simp
    ultimately have ne: "nat ((pos f - int j) mod int N) \<noteq> nat p"
      using p by (simp add: p_def nat_eq_iff)
    have "buffer f ! nat ((pos f - int j) mod int N) = h j"
      using h k Suc N by (simp add: fir_hist_def)
    moreover have "buf ! nat ((p - int (Suc j)) mod int N) =
        buffer f ! nat ((pos f - int j) mod int N)"
      unfolding e buf_def using ne by simp
    ultimately show ?thesis unfolding Suc by simp
  qed
  have "fir_hist f' (case_nat x h)"
    using slot N by (simp add: fir_hist_def f' buf_def)
  moreover have "y = (\<Sum>i<N. coeffs f ! i * case_nat x h i)"
    unfolding y by (rule sum.cong) (simp_all add: slot)
  ultimately show ?thesis by (simp add: N_def)
qed

lemma fir_New_hist: "NewFIRFilter cs = Ok f \<Longrightarrow> fir_hist f (\<lambda>_. 0)"
  by (auto simp: NewFIRFilter_def fir_hist_def split: if_splits)

lemma fir_ticks_hist:
  "fir_wf f \<Longrightarrow> fir_hist f h \<Longrightarrow>
   \<exists>f'. fir_ticks f xs =
     Ok (f', map (\<lambda>n. \<Sum>i<length (coeffs f). coeffs f ! i *
                (if i \<le> n then xs ! (n - i) else h (i - n - 1))) [0..<length xs])
     \<and> fir_wf f' \<and> coeffs f' = coeffs f"
proof (induction xs arbitrary: f h)
  case Nil
  then show ?case by simp
next
  case (Cons x xs)
  obtain f1 y where t: "FIRFilter_Tick f x = Ok (f1, y)"
    using fir_Tick_step[OF Cons.prems(1), of x] by blast
  have wf1: "fir_wf f1" and c1: "coeffs f1 = coeffs f"
    using fir_Tick_wf[OF Cons.prems(1) t] by auto
  have h1: "fir_hist f1 (case_nat x h)"
    and y: "y = (\<Sum>i<length (coeffs f). coeffs f ! i * case_nat x h i)"
    using fir_Tick_hist[OF Cons.prems t] by auto
  obtain f2 where r: "fir_ticks f1 xs =
     Ok (f2, map (\<lambda>n. \<Sum>i<length (coeffs f1). coeffs f1 ! i *
                (if i \<le> n then xs ! (n - i) else case_nat x h (i - n - 1))) [0..<length xs])"
     and wf2: "fir_wf f2" and c2: "coeffs f2 = coeffs f1"
    using Cons.IH[OF wf1 h1] by blast
  have hd: "y = (\<Sum>i<length (coeffs f). coeffs f ! i *
                (if i \<le> 0 then (x # xs) ! (0 - i) else h (i - 0 - 1)))"
    unfolding y by (rule sum.cong) (auto split: nat.splits)
  have tl: "(\<Sum>i<length (coeffs f). coeffs f ! i *
                (if i \<le> n then xs ! (n - i) else case_nat x h (i - n - 1)))
          = (\<Sum>i<length (coeffs f). coeffs f ! i *
                (if i \<le> Suc n then (x # xs) ! (Suc n - i) else h (i - Suc n - 1)))" for n
  proof (rule sum.cong[OF refl])
    fix i
    consider "i \<le> n" | "i = Suc n" | "Suc n < i" by linarith
    then show "coeffs f ! i * (if i \<le> n then xs ! (n - i) else case_nat x h (i - n - 1)) =
         coeffs f ! i * (if i \<le> Suc n then (x # xs) ! (Suc n - i) else h (i - Suc n - 1))"
    proof cases
      case 1
      then show ?thesis by (simp add: Suc_diff_le)
    next
      case 2
      then show ?thesis by simp
    next
      case 3
      then have "i - n - 1 = Suc (i - Suc n - 1)" by simp
      then show ?thesis using 3 by simp
    qed
  qed
  have "[0..<length (x # xs)] = 0 # map Suc [0..<length xs]"
    by (simp add: upt_conv_Cons map_Suc_upt del: upt_Suc)
  then show ?case
    using t r wf2 c2 c1 by (simp add: hd tl o_def del: upt_Suc)
qed


text \<open>
  Claim C1. A filter built from a non-empty coefficient sequence \<open>cs\<close> of length \<open>N\<close>
  answers an input sequence with the convolution of the input and the coefficients:
  output number \<open>n\<close> is the sum over \<open>i < N\<close> of \<open>cs ! i\<close> times the sample fed \<open>i\<close>
  ticks earlier (zero before the first sample), so the newest sample meets \<open>cs ! 0\<close>. In
  every state of such a filter, \<^verbatim>\<open>Tick\<close> moves the cursor one slot forward (cyclically),
  writes the input there and returns the sum over \<open>i < N\<close> of \<open>cs ! i\<close> times the slot \<open>i\<close>
  places behind the cursor. The coefficients \<open>[1, 2, 3]\<close> answer the impulse
  \<open>[1, 0, 0, 0]\<close> with \<open>[1, 2, 3, 0]\<close>.
\<close>

theorem fir_tick_convolution:
  "(cs \<noteq> [] \<longrightarrow>
      (\<exists>f0 f'. NewFIRFilter cs = Ok f0 \<and>
         fir_ticks f0 xs =
           Ok (f', map (\<lambda>n. \<Sum>i<length cs. cs ! i * past xs n i) [0..<length xs])))
   \<and> (fir_reachable cs f \<longrightarrow>
        (let N = length cs;
             p = (pos f + 1) mod int N;
             buf = (buffer f)[nat p := x]
         in FIRFilter_Tick f x =
              Ok (f\<lparr>buffer := buf, pos := p\<rparr>,
                  \<Sum>i<N. cs ! i * buf ! nat ((p - int i) mod int N))))
   \<and> (\<exists>f0 f'. NewFIRFilter [1, 2, 3] = Ok f0 \<and>
         fir_ticks f0 [1, 0, 0, 0] = Ok (f', [1, 2, 3, 0]))"
proof (intro conjI impI)
  assume ne: "cs \<noteq> []"
  define f0 where "f0 = \<lparr>coeffs = cs, buffer = replicate (length cs) 0, pos = int (length cs) - 1\<rparr>"
  have new: "NewFIRFilter cs = Ok f0"
    using ne by (simp add: NewFIRFilter_def f0_def)
  have wf: "fir_wf f0" and c: "coeffs f0 = cs"
    using fir_New_wf[OF new] by auto
  obtain f' where "fir_ticks f0 xs =
     Ok (f', map (\<lambda>n. \<Sum>i<length (coeffs f0). coeffs f0 ! i *
                (if i \<le> n then xs ! (n - i) else (\<lambda>_. 0) (i - n - 1))) [0..<length xs])"
    using fir_ticks_hist[OF wf fir_New_hist[OF new], of xs] by blast
  then have "fir_ticks f0 xs =
      Ok (f', map (\<lambda>n. \<Sum>i<length cs. cs ! i * past xs n i) [0..<length xs])"
    by (simp add: c past_def)
  with new show "\<exists>f0 f'. NewFIRFilter cs = Ok f0 \<and>
         fir_ticks f0 xs =
           Ok (f', map (\<lambda>n. \<Sum>i<length cs. cs ! i * past xs n i) [0..<length xs])"
    by blast
next
  assume "fir_reachable cs f"
  then have wf: "fir_wf f" and c: "coeffs f = cs"
    using fir_reachable_wf by auto
  show "let N = length cs;
             p = (pos f + 1) mod int N;
             buf = (buffer f)[nat p := x]
         in FIRFilter_Tick f x =
              Ok (f\<lparr>buffer := buf, pos := p\<rparr>,
                  \<Sum>i<N. cs ! i * buf ! nat ((p - int i) mod int N))"
    using fir_Tick_step[OF wf, of x] by (simp add: c Let_def)
next
  have "NewFIRFilter [1, 2, 3] = Ok \<lparr>coeffs = [1, 2, 3], buffer = [0, 0, 0], pos = 2\<rparr>"
    by (simp add: NewFIRFilter_def)
  moreover have "fir_ticks \<lparr>coeffs = [1, 2, 3], buffer = [0, 0, 0], pos = 2\<rparr> [1, 0, 0, 0] =
      Ok (\<lparr>coeffs = [1, 2, 3], buffer = [0, 0, 0], pos = 0\<rparr>, [1, 2, 3, 0])"
    by (simp add: FIRFilter_Tick_def go_rem_def write_at_def read_at_def in_range_def
        fir_loop.simps)
  ultimately show "\<exists>f0 f'. NewFIRFilter [1, 2, 3] = Ok f0 \<and>
         fir_ticks f0 [1, 0, 0, 0] = Ok (f', [1, 2, 3, 0])"
    by blast
qed

text \<open>The theorem at the coefficients \<open>[1, 2, 3]\<close>, in the state reached by the ticks
  \<open>4\<close> and \<open>5\<close>, for the input \<open>7\<close>: the output is \<open>1 * 7 + 2 * 5 + 3 * 4\<close>.\<close>

theorem fir_tick_convolution_witness:
  "[1, 2, 3] \<noteq> ([] :: real list)
   \<and> fir_reachable [1, 2, 3] \<lparr>coeffs = [1, 2, 3], buffer = [4, 5, 0], pos = 1\<rparr>
   \<and> FIRFilter_Tick \<lparr>coeffs = [1, 2, 3], buffer = [4, 5, 0], pos = 1\<rparr> 7 =
         Ok (\<lparr>coeffs = [1, 2, 3], buffer = [4, 5, 7], pos = 2\<rparr>, 29)
   \<and> (\<exists>f0 f'. NewFIRFilter [1, 2, 3] = Ok f0 \<and>
         fir_ticks f0 [4, 5, 7] = Ok (f', [4, 13, 29]))"
proof -
  let ?cs = "[1, 2, 3] :: real list"
  let ?f0 = "\<lparr>coeffs = ?cs, buffer = [0, 0, 0], pos = 2\<rparr>"
  let ?f1 = "\<lparr>coeffs = ?cs, buffer = [4, 0, 0], pos = 0\<rparr>"
  let ?f2 = "\<lparr>coeffs = ?cs, buffer = [4, 5, 0], pos = 1\<rparr>"
  have new: "NewFIRFilter ?cs = Ok ?f0"
    by (simp add: NewFIRFilter_def)
  have t1: "FIRFilter_Tick ?f0 4 = Ok (?f1, 4)"
    by (simp add: FIRFilter_Tick_def go_rem_def write_at_def read_at_def in_range_def
        fir_loop.simps)
  have t2: "FIRFilter_Tick ?f1 5 = Ok (?f2, 13)"
    by (simp add: FIRFilter_Tick_def go_rem_def write_at_def read_at_def in_range_def
        fir_loop.simps)
  have r: "fir_reachable ?cs ?f2"
    by (rule fir_tick[OF fir_tick[OF fir_new[OF new] t1] t2])
  have three: "{..<3::nat} = {0, 1, 2}" by auto
  note inst = fir_tick_convolution[of ?cs "[4, 5, 7]" ?f2 7]
  have a: "FIRFilter_Tick ?f2 7 = Ok (\<lparr>coeffs = ?cs, buffer = [4, 5, 7], pos = 2\<rparr>, 29)"
    using inst r by (simp add: Let_def three)
  have b: "\<exists>f0 f'. NewFIRFilter ?cs = Ok f0 \<and> fir_ticks f0 [4, 5, 7] = Ok (f', [4, 13, 29])"
    using inst by (simp add: three past_def upt_rec)
  show ?thesis using r a b by simp
qed

text \<open>
  Claim C7. Whatever ticks and resets a filter with coefficients \<open>cs\<close> has gone
  through, \<^verbatim>\<open>Reset\<close> puts it into the state of a freshly constructed filter with the
  same coefficients; hence feeding any input sequence to it after the reset gives the
  outputs (and the panic-free run) that the fresh filter gives.
\<close>

theorem fir_reset_is_fresh:
  "fir_reachable cs f \<Longrightarrow>
     NewFIRFilter cs = Ok (FIRFilter_Reset f)
     \<and> (\<exists>f' ys. fir_ticks (FIRFilter_Reset f) s = Ok (f', ys) \<and> length ys = length s
           \<and> (\<forall>f0. NewFIRFilter cs = Ok f0 \<longrightarrow> fir_ticks f0 s = Ok (f', ys)))"
proof -
  assume "fir_reachable cs f"
  then have wf: "fir_wf f" and c: "coeffs f = cs"
    using fir_reachable_wf by auto
  have fresh: "NewFIRFilter cs = Ok (FIRFilter_Reset f)"
    using fir_Reset_fresh[OF wf] by (simp add: c)
  have wfr: "fir_wf (FIRFilter_Reset f)"
    using fir_Reset_wf[OF wf] by simp
  obtain f' ys where run: "fir_ticks (FIRFilter_Reset f) s = Ok (f', ys)" and len: "length ys = length s"
    using fir_ticks_hist[OF wfr fir_New_hist[OF fresh], of s] by auto
  have "\<forall>f0. NewFIRFilter cs = Ok f0 \<longrightarrow> fir_ticks f0 s = Ok (f', ys)"
    using fresh run by simp
  with fresh run len show ?thesis by blast
qed

text \<open>The theorem at the coefficients \<open>[1, 2, 3]\<close>, after the ticks \<open>4\<close> and \<open>5\<close>, for
  the impulse \<open>[1, 0, 0, 0]\<close>.\<close>

theorem fir_reset_is_fresh_witness:
  "fir_reachable [1, 2, 3] \<lparr>coeffs = [1, 2, 3], buffer = [4, 5, 0], pos = 1\<rparr>
   \<and> FIRFilter_Reset \<lparr>coeffs = [1, 2, 3], buffer = [4, 5, 0], pos = 1\<rparr> =
         \<lparr>coeffs = [1, 2, 3], buffer = [0, 0, 0], pos = 2\<rparr>
   \<and> NewFIRFilter [1, 2, 3] = Ok \<lparr>coeffs = [1, 2, 3], buffer = [0, 0, 0], pos = 2\<rparr>
   \<and> (\<exists>f'. fir_ticks (FIRFilter_Reset \<lparr>coeffs = [1, 2, 3], buffer = [4, 5, 0], pos = 1\<rparr>)
              [1, 0, 0, 0] = Ok (f', [1, 2, 3, 0]))"
proof -
  let ?cs = "[1, 2, 3] :: real list"
  let ?f0 = "\<lparr>coeffs = ?cs, buffer = [0, 0, 0], pos = 2\<rparr>"
  let ?f1 = "\<lparr>coeffs = ?cs, buffer = [4, 0, 0], pos = 0\<rparr>"
  let ?f2 = "\<lparr>coeffs = ?cs, buffer = [4, 5, 0], pos = 1\<rparr>"
  have new: "NewFIRFilter ?cs = Ok ?f0"
    by (simp add: NewFIRFilter_def)
  have t1: "FIRFilter_Tick ?f0 4 = Ok (?f1, 4)"
    by (simp add: FIRFilter_Tick_def go_rem_def write_at_def read_at_def in_range_def
        fir_loop.simps)
  have t2: "FIRFilter_Tick ?f1 5 = Ok (?f2, 13)"
    by (simp add: FIRFilter_Tick_def go_rem_def write_at_def read_at_def in_range_def
        fir_loop.simps)
  have r: "fir_reachable ?cs ?f2"
    by (rule fir_tick[OF fir_tick[OF fir_new[OF new] t1] t2])
  have rs: "FIRFilter_Reset ?f2 = ?f0"
    by (simp add: FIRFilter_Reset_def)
  have run: "fir_ticks ?f0 [1, 0, 0, 0] = Ok (\<lparr>coeffs = ?cs, buffer = [0, 0, 0], pos = 0\<rparr>, [1, 2, 3, 0])"
    by (simp add: FIRFilter_Tick_def go_rem_def write_at_def read_at_def in_range_def
        fir_loop.simps)
  from fir_reset_is_fresh[OF r, of "[1, 0, 0, 0]"]
  have "\<exists>f'. fir_ticks (FIRFilter_Reset ?f2) [1, 0, 0, 0] = Ok (f', [1, 2, 3, 0])"
    using new run by (auto simp: rs)
  then show ?thesis using r rs new by simp
qed

section \<open>Properties of the IIR filter\<close>

lemma go_rem_fixup:
  assumes "0 < N"
  shows "(if go_rem a N < 0 then go_rem a N + N else go_rem a N) = a mod N"
proof (cases "0 \<le> a")
  case True
  have "0 \<le> a mod N" using assms by simp
  then have "\<not> a mod N < 0" by linarith
  then show ?thesis using go_rem_nonneg[OF True assms] by simp
next
  case False
  then have neg: "a < 0" by simp
  then have g: "go_rem a N = - ((- a) mod N)"
    using assms by (simp add: go_rem_def)
  show ?thesis
  proof (cases "a mod N = 0")
    case True
    then have "(- a) mod N = 0" by (simp add: zmod_zminus1_eq_if)
    then show ?thesis using True g by simp
  next
    case False
    then have m: "(- a) mod N = N - a mod N" by (simp add: zmod_zminus1_eq_if)
    have "0 < a mod N" using False pos_mod_sign[OF assms, of a] by linarith
    moreover have "a mod N < N" using assms by simp
    ultimately show ?thesis using g m by simp
  qed
qed

lemma ring_read_ok:
  assumes "length buf = N" "0 < N"
  shows "ring_read buf p i = Ok (buf ! nat ((p - int i) mod int N))"
proof -
  have "0 \<le> (p - int i) mod int N" "(p - int i) mod int N < int N"
    using assms by simp_all
  moreover have "(if go_rem (p - int i) (int (length buf)) < 0
       then go_rem (p - int i) (int (length buf)) + int (length buf)
       else go_rem (p - int i) (int (length buf))) = (p - int i) mod int N"
  proof -
    have "0 < int N" using assms by simp
    then show ?thesis by (simp only: assms(1) go_rem_fixup)
  qed
  ultimately show ?thesis
    unfolding ring_read_def Let_def using assms
    by (simp add: read_at_def in_range_def)
qed

lemma feedforward_sum:
  "length xb = N \<Longrightarrow> 0 < N \<Longrightarrow>
   feedforward bC xb p i acc =
     Ok (acc + (\<Sum>j<length bC - i. bC ! (i + j) * xb ! nat ((p - int (i + j)) mod int N)))"
proof (induction bC xb p i acc rule: feedforward.induct)
  case (1 bC xb p i acc)
  show ?case
  proof (cases "i < length bC")
    case False
    then show ?thesis by (simp add: feedforward.simps)
  next
    case True
    have rd: "ring_read xb p i = Ok (xb ! nat ((p - int i) mod int N))"
      using ring_read_ok[OF "1.prems"] .
    have len: "length bC - i = Suc (length bC - (i + 1))" using True by simp
    have "feedforward bC xb p i acc =
          feedforward bC xb p (i + 1) (acc + bC ! i * xb ! nat ((p - int i) mod int N))"
      by (subst feedforward.simps) (simp only: True if_True rd result.case)
    also note "1.IH"[OF True rd "1.prems"]
    also have "acc + bC ! i * xb ! nat ((p - int i) mod int N) +
        (\<Sum>j<length bC - (i + 1). bC ! (i + 1 + j) * xb ! nat ((p - int (i + 1 + j)) mod int N))
      = acc + (\<Sum>j<length bC - i. bC ! (i + j) * xb ! nat ((p - int (i + j)) mod int N))"
      unfolding len sum.lessThan_Suc_shift by (simp add: algebra_simps)
    finally show ?thesis .
  qed
qed

lemma feedback_sum:
  "length yb = N \<Longrightarrow> 0 < N \<Longrightarrow>
   feedback aC yb p i acc =
     Ok (acc - (\<Sum>j<length aC - i. aC ! (i + j) * yb ! nat ((p - int (i + j)) mod int N)))"
proof (induction aC yb p i acc rule: feedback.induct)
  case (1 aC yb p i acc)
  show ?case
  proof (cases "i < length aC")
    case False
    then show ?thesis by (simp add: feedback.simps)
  next
    case True
    have rd: "ring_read yb p i = Ok (yb ! nat ((p - int i) mod int N))"
      using ring_read_ok[OF "1.prems"] .
    have len: "length aC - i = Suc (length aC - (i + 1))" using True by simp
    have "feedback aC yb p i acc =
          feedback aC yb p (i + 1) (acc - aC ! i * yb ! nat ((p - int i) mod int N))"
      by (subst feedback.simps) (simp only: True if_True rd result.case)
    also note "1.IH"[OF True rd "1.prems"]
    also have "acc - aC ! i * yb ! nat ((p - int i) mod int N) -
        (\<Sum>j<length aC - (i + 1). aC ! (i + 1 + j) * yb ! nat ((p - int (i + 1 + j)) mod int N))
      = acc - (\<Sum>j<length aC - i. aC ! (i + j) * yb ! nat ((p - int (i + j)) mod int N))"
      unfolding len sum.lessThan_Suc_shift by (simp add: algebra_simps)
    finally show ?thesis .
  qed
qed

lemma sum_from_one:
  fixes g :: "nat \<Rightarrow> real"
  shows "(\<Sum>j<Q - 1. g (1 + j)) = (\<Sum>i\<in>{1..<Q}. g i)"
proof -
  have "(\<Sum>i\<in>{1..<Q}. g i) = (\<Sum>j\<in>{0..<Q - 1}. g (j + 1))"
    using sum.shift_bounds_nat_ivl[of g 0 1 "Q - 1"] by (cases Q) simp_all
  then show ?thesis by (simp add: lessThan_atLeast0 add.commute)
qed

lemma IIR_Tick_step:
  fixes f :: IIRFilter and x :: real
  assumes wf: "iir_wf f"
  defines "P \<equiv> length (bCoeffs f)" and "Q \<equiv> length (aCoeffs f)"
  defines "xb \<equiv> (xBuffer f)[nat (xPos f) := x]"
  defines "y \<equiv> (\<Sum>i<P. bCoeffs f ! i * xb ! nat ((xPos f - int i) mod int P))
               - (\<Sum>i\<in>{1..<Q}. aCoeffs f ! i * yBuffer f ! nat ((yPos f - int i) mod int Q))"
  shows "IIRFilter_Tick f x =
           Ok (f\<lparr>xBuffer := xb, yBuffer := (yBuffer f)[nat (yPos f) := y],
                 xPos := (xPos f + 1) mod int P, yPos := (yPos f + 1) mod int Q\<rparr>, y)"
proof -
  have P: "0 < P" "length (xBuffer f) = P" and Q: "0 < Q" "length (yBuffer f) = Q"
    and xp: "0 \<le> xPos f" "xPos f < int P" and yp: "0 \<le> yPos f" "yPos f < int Q"
    using wf by (auto simp: iir_wf_def P_def Q_def)
  have wx: "write_at (xBuffer f) (xPos f) x = Ok xb"
    using xp P by (simp add: write_at_def in_range_def xb_def)
  have lxb: "length xb = P" using P by (simp add: xb_def)
  have ff: "feedforward (bCoeffs f) xb (xPos f) 0 0 =
      Ok (\<Sum>i<P. bCoeffs f ! i * xb ! nat ((xPos f - int i) mod int P))"
    using feedforward_sum[OF lxb P(1), of "bCoeffs f" "xPos f" 0 0] by (simp add: P_def)
  have fb: "feedback (aCoeffs f) (yBuffer f) (yPos f) (Suc 0) s =
      Ok (s - (\<Sum>i\<in>{1..<Q}. aCoeffs f ! i * yBuffer f ! nat ((yPos f - int i) mod int Q)))" for s
    using feedback_sum[OF Q(2) Q(1), of "aCoeffs f" "yPos f" 1 s]
      sum_from_one[of "\<lambda>i. aCoeffs f ! i * yBuffer f ! nat ((yPos f - int i) mod int Q)" Q]
    by (simp add: Q_def)
  have wy: "write_at (yBuffer f) (yPos f) v = Ok ((yBuffer f)[nat (yPos f) := v])" for v
    using yp Q by (simp add: write_at_def in_range_def)
  have rx: "go_rem (xPos f + 1) (int P) = (xPos f + 1) mod int P"
    using xp P by (simp add: go_rem_nonneg)
  have ry: "go_rem (yPos f + 1) (int Q) = (yPos f + 1) mod int Q"
    using yp Q by (simp add: go_rem_nonneg)
  show ?thesis
    unfolding IIRFilter_Tick_def using P Q lxb
    by (simp add: wx ff fb wy rx ry y_def)
qed

lemma hist_at_Cons:
  "hist_at xs (case_nat x h) n i = hist_at (x # xs) h (Suc n) i"
proof -
  consider "i \<le> n" | "i = Suc n" | "Suc n < i" by linarith
  then show ?thesis
  proof cases
    case 1
    then show ?thesis by (simp add: hist_at_def Suc_diff_le)
  next
    case 2
    then show ?thesis by (simp add: hist_at_def)
  next
    case 3
    then have "i - n - 1 = Suc (i - Suc n - 1)" by simp
    then show ?thesis using 3 by (simp add: hist_at_def)
  qed
qed

lemma hist_at_0: "hist_at (x # xs) h 0 i = case_nat x h i"
  by (cases i) (simp_all add: hist_at_def)

lemma past_hist_at: "past xs n i = hist_at xs (\<lambda>_. 0) n i"
  by (simp add: past_def hist_at_def)

lemma ring_look:
  assumes "ring_hist buf p h" "length buf = N" "1 \<le> i" "i < N"
  shows "buf ! nat ((p - int i) mod int N) = h (i - 1)"
proof -
  obtain k where k: "i = Suc k" using assms(3) by (cases i) auto
  have "buf ! nat ((p - 1 - int k) mod int (length buf)) = h k"
    using assms k by (simp add: ring_hist_def)
  moreover have "p - 1 - int k = p - int i" using k by simp
  ultimately show ?thesis using assms(2) k by simp
qed

lemma ring_push:
  assumes h: "ring_hist buf p h" and N: "length buf = N" "0 \<le> p" "p < int N"
  shows "ring_hist (buf[nat p := v]) ((p + 1) mod int N) (case_nat v h)"
  unfolding ring_hist_def
proof (intro allI impI)
  fix k
  assume "k + 1 < length (buf[nat p := v])"
  then have k: "k + 1 < N" using N by simp
  have N0: "0 < int N" using k by simp
  have e: "((p + 1) mod int N - 1 - int k) mod int N = (p - int k) mod int N"
    by (simp add: mod_diff_left_eq algebra_simps)
  have "buf[nat p := v] ! nat ((p - int k) mod int N) = case_nat v h k"
  proof (cases k)
    case 0
    have "p mod int N = p" using N by simp
    then show ?thesis using N 0 by simp
  next
    case (Suc j)
    have "(p - 1 - int j) mod int N \<noteq> (p - 1 + 1) mod int N"
      using k Suc N0 by (intro ring_slot_distinct) auto
    moreover have "0 \<le> (p - 1 - int j) mod int N" using N0 by simp
    ultimately have ne: "nat ((p - 1 - int j) mod int N) \<noteq> nat p"
      using N by (simp add: nat_eq_iff)
    have pj: "p - int (Suc j) = p - 1 - int j" by simp
    have "buf ! nat ((p - 1 - int j) mod int N) = h j"
      using h k Suc N by (simp add: ring_hist_def)
    moreover have "buf[nat p := v] ! nat ((p - int (Suc j)) mod int N)
         = buf ! nat ((p - 1 - int j) mod int N)"
      unfolding pj using ne by simp
    ultimately show ?thesis by (simp only: Suc nat.case)
  qed
  then show "buf[nat p := v] ! nat (((p + 1) mod int N - 1 - int k) mod int (length (buf[nat p := v])))
        = case_nat v h k"
    by (simp only: e length_list_update N(1))
qed

lemma ring_zero: "ring_hist (replicate N 0) 0 (\<lambda>_. 0)"
proof -
  have "nat ((- 1 - int k) mod int N) < N" if "k + 1 < N" for k
  proof -
    have "0 < int N" using that by simp
    then have "(- 1 - int k) mod int N < int N" by (rule pos_mod_bound)
    moreover have "0 \<le> (- 1 - int k) mod int N" using \<open>0 < int N\<close> by simp
    ultimately show ?thesis by linarith
  qed
  then show ?thesis by (simp add: ring_hist_def)
qed

lemma iir_Tick_wf:
  assumes "iir_wf f" "IIRFilter_Tick f x = Ok (f', y)"
  shows "iir_wf f' \<and> bCoeffs f' = bCoeffs f \<and> aCoeffs f' = aCoeffs f"
  using assms IIR_Tick_step[OF assms(1), of x]
  by (auto simp: iir_wf_def)

lemma iir_Process_wf:
  "iir_wf f \<Longrightarrow> IIRFilter_Process f xs = Ok (f', ys) \<Longrightarrow>
   iir_wf f' \<and> bCoeffs f' = bCoeffs f \<and> aCoeffs f' = aCoeffs f"
proof (induction xs arbitrary: f ys)
  case Nil
  then show ?case by simp
next
  case (Cons x xs)
  obtain f1 y where t: "IIRFilter_Tick f x = Ok (f1, y)"
    using IIR_Tick_step[OF Cons.prems(1), of x] by blast
  have wf1: "iir_wf f1" and c: "bCoeffs f1 = bCoeffs f" "aCoeffs f1 = aCoeffs f"
    using iir_Tick_wf[OF Cons.prems(1) t] by auto
  obtain ys' where "IIRFilter_Process f1 xs = Ok (f', ys')"
    using Cons.prems(2) t by (auto split: result.splits)
  from Cons.IH[OF wf1 this] c show ?case by simp
qed

lemma iir_New_wf:
  assumes "NewIIRFilter bC aC = Ok f"
  shows "iir_wf f \<and> xPos f = 0 \<and> yPos f = 0
       \<and> xBuffer f = replicate (length (bCoeffs f)) 0
       \<and> yBuffer f = replicate (length (aCoeffs f)) 0"
  using assms by (auto simp: NewIIRFilter_def iir_wf_def Let_def split: if_splits)

lemma iir_Reset_wf:
  "iir_wf f \<Longrightarrow> iir_wf (IIRFilter_Reset f) \<and> bCoeffs (IIRFilter_Reset f) = bCoeffs f
     \<and> aCoeffs (IIRFilter_Reset f) = aCoeffs f"
  by (auto simp: IIRFilter_Reset_def iir_wf_def)

lemma iir_reachable_wf:
  assumes new: "NewIIRFilter bC aC = Ok f0"
  shows "iir_reachable bC aC f \<Longrightarrow>
    iir_wf f \<and> bCoeffs f = bCoeffs f0 \<and> aCoeffs f = aCoeffs f0"
proof (induction rule: iir_reachable.induct)
  case (iir_new f)
  then show ?case using new iir_New_wf by auto
next
  case (iir_tick f x f' y)
  then show ?case using iir_Tick_wf by metis
next
  case (iir_process f xs f' ys)
  then show ?case using iir_Process_wf by metis
next
  case (iir_reset f)
  then show ?case using iir_Reset_wf by metis
qed

lemma iir_Tick_hist:
  assumes wf: "iir_wf f"
    and hx: "ring_hist (xBuffer f) (xPos f) hx"
    and hy: "ring_hist (yBuffer f) (yPos f) hy"
    and t: "IIRFilter_Tick f x = Ok (f', y)"
  shows "y = (\<Sum>i<length (bCoeffs f). bCoeffs f ! i * case_nat x hx i)
           - (\<Sum>i\<in>{1..<length (aCoeffs f)}. aCoeffs f ! i * hy (i - 1))
       \<and> ring_hist (xBuffer f') (xPos f') (case_nat x hx)
       \<and> ring_hist (yBuffer f') (yPos f') (case_nat y hy)"
proof -
  define P where "P = length (bCoeffs f)"
  define Q where "Q = length (aCoeffs f)"
  define xb where "xb = (xBuffer f)[nat (xPos f) := x]"
  have P: "0 < P" "length (xBuffer f) = P" and Q: "0 < Q" "length (yBuffer f) = Q"
    and xp: "0 \<le> xPos f" "xPos f < int P" and yp: "0 \<le> yPos f" "yPos f < int Q"
    using wf by (auto simp: iir_wf_def P_def Q_def)
  have y: "y = (\<Sum>i<P. bCoeffs f ! i * xb ! nat ((xPos f - int i) mod int P))
               - (\<Sum>i\<in>{1..<Q}. aCoeffs f ! i * yBuffer f ! nat ((yPos f - int i) mod int Q))"
    and f': "f' = f\<lparr>xBuffer := xb, yBuffer := (yBuffer f)[nat (yPos f) := y],
                 xPos := (xPos f + 1) mod int P, yPos := (yPos f + 1) mod int Q\<rparr>"
    using IIR_Tick_step[OF wf, of x] t by (simp_all add: P_def Q_def xb_def)
  have xslot: "xb ! nat ((xPos f - int i) mod int P) = case_nat x hx i" if i: "i < P" for i
  proof (cases i)
    case 0
    have "xPos f mod int P = xPos f" using xp by simp
    then show ?thesis using xp P 0 by (simp add: xb_def)
  next
    case (Suc j)
    have "(xPos f - 1 - int j) mod int P \<noteq> (xPos f - 1 + 1) mod int P"
      using i Suc by (intro ring_slot_distinct) auto
    moreover have "0 \<le> (xPos f - 1 - int j) mod int P" using P by simp
    moreover have pj: "xPos f - int (Suc j) = xPos f - 1 - int j" by simp
    ultimately have ne: "nat ((xPos f - int (Suc j)) mod int P) \<noteq> nat (xPos f)"
      using xp by (simp only: pj) (simp add: nat_eq_iff)
    have "xBuffer f ! nat ((xPos f - int i) mod int P) = hx (i - 1)"
      using ring_look[OF hx P(2) _ i] Suc by simp
    then show ?thesis using ne by (simp add: xb_def Suc)
  qed
  have yslot: "yBuffer f ! nat ((yPos f - int i) mod int Q) = hy (i - 1)" if "i \<in> {1..<Q}" for i
    using ring_look[OF hy Q(2), of i] that by simp
  have 1: "y = (\<Sum>i<P. bCoeffs f ! i * case_nat x hx i)
           - (\<Sum>i\<in>{1..<Q}. aCoeffs f ! i * hy (i - 1))"
    unfolding y using xslot yslot by simp
  have 2: "ring_hist (xBuffer f') (xPos f') (case_nat x hx)"
    using ring_push[OF hx P(2) xp, of x] by (simp add: f' xb_def)
  have 3: "ring_hist (yBuffer f') (yPos f') (case_nat y hy)"
    using ring_push[OF hy Q(2) yp, of y] by (simp add: f')
  show ?thesis using 1 2 3 by (simp add: P_def Q_def)
qed

lemma iir_Process_hist:
  "iir_wf f \<Longrightarrow> ring_hist (xBuffer f) (xPos f) hx \<Longrightarrow> ring_hist (yBuffer f) (yPos f) hy \<Longrightarrow>
   \<exists>f' ys. IIRFilter_Process f xs = Ok (f', ys) \<and> length ys = length xs \<and>
     (\<forall>n<length xs. ys ! n =
        (\<Sum>i<length (bCoeffs f). bCoeffs f ! i * hist_at xs hx n i)
      - (\<Sum>i\<in>{1..<length (aCoeffs f)}. aCoeffs f ! i * hist_at ys hy n i))"
proof (induction xs arbitrary: f hx hy)
  case Nil
  then show ?case by simp
next
  case (Cons x xs)
  obtain f1 y where t: "IIRFilter_Tick f x = Ok (f1, y)"
    using IIR_Tick_step[OF Cons.prems(1), of x] by blast
  have wf1: "iir_wf f1" and c: "bCoeffs f1 = bCoeffs f" "aCoeffs f1 = aCoeffs f"
    using iir_Tick_wf[OF Cons.prems(1) t] by auto
  have y: "y = (\<Sum>i<length (bCoeffs f). bCoeffs f ! i * case_nat x hx i)
           - (\<Sum>i\<in>{1..<length (aCoeffs f)}. aCoeffs f ! i * hy (i - 1))"
    and h1: "ring_hist (xBuffer f1) (xPos f1) (case_nat x hx)"
            "ring_hist (yBuffer f1) (yPos f1) (case_nat y hy)"
    using iir_Tick_hist[OF Cons.prems t] by auto
  obtain f' ys where r: "IIRFilter_Process f1 xs = Ok (f', ys)" and len: "length ys = length xs"
    and rec: "\<And>n. n < length xs \<Longrightarrow> ys ! n =
        (\<Sum>i<length (bCoeffs f). bCoeffs f ! i * hist_at xs (case_nat x hx) n i)
      - (\<Sum>i\<in>{1..<length (aCoeffs f)}. aCoeffs f ! i * hist_at ys (case_nat y hy) n i)"
    using Cons.IH[OF wf1 h1] unfolding c by blast
  have run: "IIRFilter_Process f (x # xs) = Ok (f', y # ys)"
    using t r by simp
  have "(y # ys) ! n =
        (\<Sum>i<length (bCoeffs f). bCoeffs f ! i * hist_at (x # xs) hx n i)
      - (\<Sum>i\<in>{1..<length (aCoeffs f)}. aCoeffs f ! i * hist_at (y # ys) hy n i)"
    if n: "n < length (x # xs)" for n
  proof (cases n)
    case 0
    have "(\<Sum>i\<in>{1..<length (aCoeffs f)}. aCoeffs f ! i * hist_at (y # ys) hy 0 i)
        = (\<Sum>i\<in>{1..<length (aCoeffs f)}. aCoeffs f ! i * hy (i - 1))"
      by (rule sum.cong) (auto simp: hist_at_def)
    then show ?thesis using 0 y by (simp add: hist_at_0)
  next
    case (Suc m)
    then have "m < length xs" using n by simp
    from rec[OF this] show ?thesis by (simp add: Suc hist_at_Cons)
  qed
  with run len show ?case by auto
qed

lemma iir_example_run:
  "IIRFilter_Process
     \<lparr>bCoeffs = [1/2], aCoeffs = [1, 3/10], xBuffer = [0], yBuffer = [0, 0],
      xPos = 0, yPos = 0, order = 1\<rparr> [1, 0, 0, 0, 0] =
   Ok (\<lparr>bCoeffs = [1/2], aCoeffs = [1, 3/10], xBuffer = [0], yBuffer = [405/100000, -135/10000],
      xPos = 0, yPos = 1, order = 1\<rparr>, [1/2, -15/100, 45/1000, -135/10000, 405/100000])"
  by (simp add: IIRFilter_Tick_def write_at_def read_at_def in_range_def ring_read_def
        go_rem_def feedforward.simps feedback.simps Let_def)

lemma iir_example_new:
  "NewIIRFilter [1/2] [1, 3/10] = Ok \<lparr>bCoeffs = [1/2], aCoeffs = [1, 3/10], xBuffer = [0], yBuffer = [0, 0],
      xPos = 0, yPos = 0, order = 1\<rparr>"
  by (simp add: NewIIRFilter_def Let_def)

text \<open>
  Claim C2. In every state of a filter built by \<^verbatim>\<open>NewIIRFilter\<close>, with \<open>P\<close> feedforward and
  \<open>Q\<close> feedback coefficients, \<^verbatim>\<open>Tick\<close> writes the input at the input cursor, returns
  the sum over \<open>i < P\<close> of \<open>b ! i\<close> times the input slot \<open>i\<close> places behind the cursor minus
  the sum over \<open>1 \<le> i < Q\<close> of \<open>a ! i\<close> times the output slot \<open>i\<close> places behind the output
  cursor, writes this output at the output cursor and moves both cursors one slot
  forward (cyclically). Run on an input sequence from construction, the outputs obey
  \<open>y[n] = \<Sum>i<P. b[i] * x[n - i] - \<Sum>i=1..<Q. a[i] * y[n - i]\<close> with zero history. The
  filter \<open>b = [0.5]\<close>, \<open>a = [1, 0.3]\<close> answers the impulse \<open>[1, 0, 0, 0, 0]\<close> with
  \<open>[0.5, -0.15, 0.045, -0.0135, 0.00405]\<close>.
\<close>

theorem iir_tick_recurrence:
  "(NewIIRFilter bC aC = Ok f0 \<longrightarrow>
      (\<exists>f' ys. IIRFilter_Process f0 xs = Ok (f', ys) \<and> length ys = length xs \<and>
         (\<forall>n<length xs. ys ! n =
            (\<Sum>i<length (bCoeffs f0). bCoeffs f0 ! i * past xs n i)
          - (\<Sum>i\<in>{1..<length (aCoeffs f0)}. aCoeffs f0 ! i * past ys n i))))
   \<and> (iir_reachable bC aC f \<longrightarrow>
        (let P = length (bCoeffs f); Q = length (aCoeffs f);
             xb = (xBuffer f)[nat (xPos f) := x];
             y = (\<Sum>i<P. bCoeffs f ! i * xb ! nat ((xPos f - int i) mod int P))
               - (\<Sum>i\<in>{1..<Q}. aCoeffs f ! i * yBuffer f ! nat ((yPos f - int i) mod int Q))
         in IIRFilter_Tick f x =
              Ok (f\<lparr>xBuffer := xb, yBuffer := (yBuffer f)[nat (yPos f) := y],
                    xPos := (xPos f + 1) mod int P, yPos := (yPos f + 1) mod int Q\<rparr>, y)))
   \<and> (\<exists>f0 f'. NewIIRFilter [1/2] [1, 3/10] = Ok f0 \<and>
         IIRFilter_Process f0 [1, 0, 0, 0, 0] =
           Ok (f', [1/2, - 15/100, 45/1000, - 135/10000, 405/100000]))"
proof (intro conjI impI)
  assume new: "NewIIRFilter bC aC = Ok f0"
  have wf: "iir_wf f0" and z: "xPos f0 = 0" "yPos f0 = 0"
    and xb: "xBuffer f0 = replicate (length (bCoeffs f0)) 0"
    and yb: "yBuffer f0 = replicate (length (aCoeffs f0)) 0"
    using iir_New_wf[OF new] by auto
  have hx: "ring_hist (xBuffer f0) (xPos f0) (\<lambda>_. 0)"
    unfolding z xb by (rule ring_zero)
  have hy: "ring_hist (yBuffer f0) (yPos f0) (\<lambda>_. 0)"
    unfolding z yb by (rule ring_zero)
  show "\<exists>f' ys. IIRFilter_Process f0 xs = Ok (f', ys) \<and> length ys = length xs \<and>
         (\<forall>n<length xs. ys ! n =
            (\<Sum>i<length (bCoeffs f0). bCoeffs f0 ! i * past xs n i)
          - (\<Sum>i\<in>{1..<length (aCoeffs f0)}. aCoeffs f0 ! i * past ys n i))"
    using iir_Process_hist[OF wf hx hy, of xs] by (simp add: past_hist_at)
next
  assume r: "iir_reachable bC aC f"
  then obtain f0 where new: "NewIIRFilter bC aC = Ok f0"
    by (induction rule: iir_reachable.induct) auto
  have wf: "iir_wf f" using iir_reachable_wf[OF new r] by simp
  show "let P = length (bCoeffs f); Q = length (aCoeffs f);
             xb = (xBuffer f)[nat (xPos f) := x];
             y = (\<Sum>i<P. bCoeffs f ! i * xb ! nat ((xPos f - int i) mod int P))
               - (\<Sum>i\<in>{1..<Q}. aCoeffs f ! i * yBuffer f ! nat ((yPos f - int i) mod int Q))
         in IIRFilter_Tick f x =
              Ok (f\<lparr>xBuffer := xb, yBuffer := (yBuffer f)[nat (yPos f) := y],
                    xPos := (xPos f + 1) mod int P, yPos := (yPos f + 1) mod int Q\<rparr>, y)"
    using IIR_Tick_step[OF wf, of x] by (simp add: Let_def)
next
  show "\<exists>f0 f'. NewIIRFilter [1/2] [1, 3/10] = Ok f0 \<and>
         IIRFilter_Process f0 [1, 0, 0, 0, 0] =
           Ok (f', [1/2, - 15/100, 45/1000, - 135/10000, 405/100000])"
    using iir_example_new iir_example_run by (intro exI conjI) simp_all
qed

text \<open>The theorem at \<open>b = [0.5]\<close>, \<open>a = [1, 0.3]\<close>: the first tick of the fresh filter on the
  input \<open>1\<close>, and a run of two samples.\<close>

theorem iir_tick_recurrence_witness:
  "NewIIRFilter [1/2] [1, 3/10] =
     Ok \<lparr>bCoeffs = [1/2], aCoeffs = [1, 3/10], xBuffer = [0], yBuffer = [0, 0],
         xPos = 0, yPos = 0, order = 1\<rparr>
   \<and> iir_reachable [1/2] [1, 3/10]
        \<lparr>bCoeffs = [1/2], aCoeffs = [1, 3/10], xBuffer = [0], yBuffer = [0, 0],
         xPos = 0, yPos = 0, order = 1\<rparr>
   \<and> IIRFilter_Tick
        \<lparr>bCoeffs = [1/2], aCoeffs = [1, 3/10], xBuffer = [0], yBuffer = [0, 0],
         xPos = 0, yPos = 0, order = 1\<rparr> 1 =
       Ok (\<lparr>bCoeffs = [1/2], aCoeffs = [1, 3/10], xBuffer = [1], yBuffer = [1/2, 0],
         xPos = 0, yPos = 1, order = 1\<rparr>, 1/2)
   \<and> (\<exists>f' ys. IIRFilter_Process
        \<lparr>bCoeffs = [1/2], aCoeffs = [1, 3/10], xBuffer = [0], yBuffer = [0, 0],
         xPos = 0, yPos = 0, order = 1\<rparr> [1, 0] = Ok (f', ys) \<and> length ys = 2
         \<and> ys ! 0 = 1/2 \<and> ys ! 1 = - (3/10) * ys ! 0)"
proof -
  let ?f0 = "\<lparr>bCoeffs = [1/2], aCoeffs = [1, 3/10], xBuffer = [0], yBuffer = [0, 0],
         xPos = 0, yPos = 0, order = 1\<rparr>"
  have new: "NewIIRFilter [1/2] [1, 3/10] = Ok ?f0" by (rule iir_example_new)
  have r: "iir_reachable [1/2] [1, 3/10] ?f0" by (rule iir_new[OF new])
  note inst = iir_tick_recurrence[of "[1/2]" "[1, 3/10]" ?f0 "[1, 0]" ?f0 1]
  have one: "{..<1::nat} = {0}" by auto
  have two: "{1..<2::nat} = {1}" by auto
  have t: "IIRFilter_Tick ?f0 1 =
       Ok (\<lparr>bCoeffs = [1/2], aCoeffs = [1, 3/10], xBuffer = [1], yBuffer = [1/2, 0],
         xPos = 0, yPos = 1, order = 1\<rparr>, 1/2)"
    using inst r by (simp add: Let_def one two)
  from inst[THEN conjunct1, THEN mp, OF new]
  obtain f' ys where run: "IIRFilter_Process ?f0 [1, 0] = Ok (f', ys)"
    and len: "length ys = length [1, 0::real]"
    and rec: "\<And>n. n < length [1, 0::real] \<Longrightarrow> ys ! n =
            (\<Sum>i<length (bCoeffs ?f0). bCoeffs ?f0 ! i * past [1, 0] n i)
          - (\<Sum>i\<in>{1..<length (aCoeffs ?f0)}. aCoeffs ?f0 ! i * past ys n i)"
    by blast
  have len2: "length ys = 2" using len by simp
  have y0: "ys ! 0 = 1/2" using rec[of 0] by (simp add: one two past_def)
  have y1: "ys ! 1 = - (3/10) * ys ! 0" using rec[of 1] by (simp add: one two past_def)
  show ?thesis using new r t run len2 y0 y1 by blast
qed

text \<open>
  Claim C3, as the spec states it, fails: a leading feedback coefficient within \<open>1e-10\<close>
  of one, but different from it, is left as it is. The filter built from \<open>b = [1]\<close> and
  \<open>a = [1.00000000001]\<close> keeps \<open>a[0] = 1.00000000001\<close>.
\<close>

theorem iir_a0_within_tolerance_kept:
  "NewIIRFilter [1] [1 + 1 / 10 ^ 11] =
     Ok \<lparr>bCoeffs = [1], aCoeffs = [1 + 1 / 10 ^ 11], xBuffer = [0], yBuffer = [0],
         xPos = 0, yPos = 0, order = 0\<rparr>
   \<and> aCoeffs \<lparr>bCoeffs = [1], aCoeffs = [1 + 1 / 10 ^ 11], xBuffer = [0], yBuffer = [0],
         xPos = 0, yPos = 0, order = 0\<rparr> ! 0 \<noteq> 1"
  by (simp add: NewIIRFilter_def Let_def)

text \<open>
  Claim C3, amended. For non-empty slices \<open>bC\<close> and \<open>aC\<close> (sharing no memory) with
  \<open>aC[0] \<noteq> 0\<close>, the constructor succeeds. If \<open>aC[0]\<close> is farther than \<open>1e-10\<close> from one,
  every coefficient of both sequences is divided by \<open>aC[0]\<close> and the stored \<open>a[0]\<close> is
  exactly one; otherwise the coefficients are stored unchanged. In both cases the
  stored \<open>a[0]\<close> is within \<open>1e-10\<close> of one, and \<^verbatim>\<open>Tick\<close>, \<^verbatim>\<open>Process\<close> and \<^verbatim>\<open>Reset\<close> never
  change a coefficient, so this holds in every state of the filter.
\<close>

theorem iir_normalization:
  assumes "bC \<noteq> []" and "aC \<noteq> []" and "aC ! 0 \<noteq> 0"
  shows "\<exists>f0. NewIIRFilter bC aC = Ok f0
     \<and> (if \<bar>aC ! 0 - 1\<bar> > 1 / 10 ^ 10
         then bCoeffs f0 = map (\<lambda>c. c / aC ! 0) bC \<and> aCoeffs f0 = map (\<lambda>c. c / aC ! 0) aC
              \<and> aCoeffs f0 ! 0 = 1
         else bCoeffs f0 = bC \<and> aCoeffs f0 = aC)
     \<and> \<bar>aCoeffs f0 ! 0 - 1\<bar> \<le> 1 / 10 ^ 10
     \<and> (\<forall>f. iir_reachable bC aC f \<longrightarrow>
            bCoeffs f = bCoeffs f0 \<and> aCoeffs f = aCoeffs f0
            \<and> \<bar>aCoeffs f ! 0 - 1\<bar> \<le> 1 / 10 ^ 10)"
proof -
  define bC' where "bC' = (if \<bar>aC ! 0 - 1\<bar> > 1 / 10 ^ 10 then map (\<lambda>c. c / aC ! 0) bC else bC)"
  define aC' where "aC' = (if \<bar>aC ! 0 - 1\<bar> > 1 / 10 ^ 10 then map (\<lambda>c. c / aC ! 0) aC else aC)"
  define f0 where "f0 = \<lparr>bCoeffs = bC', aCoeffs = aC',
                xBuffer = replicate (length bC') 0, yBuffer = replicate (length aC') 0,
                xPos = 0, yPos = 0,
                order = max (int (length bC')) (int (length aC')) - 1\<rparr>"
  have new: "NewIIRFilter bC aC = Ok f0"
    using assms(1,2) by (simp add: NewIIRFilter_def Let_def f0_def bC'_def aC'_def)
  have b: "bCoeffs f0 = bC'" and a: "aCoeffs f0 = aC'" by (simp_all add: f0_def)
  have first: "map (\<lambda>c. c / aC ! 0) aC ! 0 = 1"
    using assms(2,3) by (simp add: nth_map)
  have shape: "if \<bar>aC ! 0 - 1\<bar> > 1 / 10 ^ 10
         then bCoeffs f0 = map (\<lambda>c. c / aC ! 0) bC \<and> aCoeffs f0 = map (\<lambda>c. c / aC ! 0) aC
              \<and> aCoeffs f0 ! 0 = 1
         else bCoeffs f0 = bC \<and> aCoeffs f0 = aC"
    using first by (simp add: a b bC'_def aC'_def)
  have near: "\<bar>aCoeffs f0 ! 0 - 1\<bar> \<le> 1 / 10 ^ 10"
  proof (cases "\<bar>aC ! 0 - 1\<bar> > 1 / 10 ^ 10")
    case True
    then have "aCoeffs f0 = map (\<lambda>c. c / aC ! 0) aC" by (simp add: a aC'_def)
    then have "aCoeffs f0 ! 0 = 1" using first by simp
    then show ?thesis by simp
  next
    case False
    then have "aCoeffs f0 = aC" by (simp add: a aC'_def)
    then show ?thesis using False by simp
  qed
  have "bCoeffs f = bCoeffs f0 \<and> aCoeffs f = aCoeffs f0 \<and> \<bar>aCoeffs f ! 0 - 1\<bar> \<le> 1 / 10 ^ 10"
    if "iir_reachable bC aC f" for f
    using iir_reachable_wf[OF new that] near by simp
  with new shape near show ?thesis by blast
qed

text \<open>The amended claim at the slices of the normalisation test, \<open>b = [2, 1]\<close> and
  \<open>a = [4, 2]\<close>.\<close>

theorem iir_normalization_witness:
  "[2, 1] \<noteq> ([] :: real list) \<and> [4, 2] \<noteq> ([] :: real list) \<and> [4, 2 :: real] ! 0 \<noteq> 0
   \<and> (\<exists>f0. NewIIRFilter [2, 1] [4, 2] = Ok f0
         \<and> bCoeffs f0 = [1/2, 1/4] \<and> aCoeffs f0 = [1, 1/2]
         \<and> iir_reachable [2, 1] [4, 2] f0)"
proof -
  from iir_normalization[of "[2, 1]" "[4, 2]"]
  obtain f0 where new: "NewIIRFilter [2, 1] [4, 2] = Ok f0"
    and "bCoeffs f0 = [1/2, 1/4] \<and> aCoeffs f0 = [1, 1/2]"
    by auto
  moreover have "iir_reachable [2, 1] [4, 2] f0" by (rule iir_new[OF new])
  ultimately show ?thesis by auto
qed



text \<open>
  Claim C9, as the spec states it, fails: the constructors have no error result. An
  empty coefficient slice makes \<^verbatim>\<open>NewFIRFilter\<close> panic, which aborts the program unless
  the caller recovers; it is not an error value.
\<close>

theorem fir_empty_coefficients_panic:
  "NewFIRFilter [] = Panic ''FIRFilter: coefficients cannot be empty''
   \<and> \<not> is_Error (NewFIRFilter [])"
  by (simp add: NewFIRFilter_def)

text \<open>
  Claim C9, amended. Every construction-time validation failure is a panic with a
  message, never an error value, and no filter is produced: an empty coefficient slice
  given to \<^verbatim>\<open>NewFIRFilter\<close> or \<^verbatim>\<open>NewIIRFilter\<close>, a cutoff frequency outside \<open>(0, 0.5)\<close>
  given to any of the seven design factories, and a quality factor \<open>Q \<le> 0\<close> given to one
  of the three second-order factories.
\<close>

theorem construction_failures_panic:
  "(cs = [] \<longrightarrow> NewFIRFilter cs = Panic ''FIRFilter: coefficients cannot be empty'')
   \<and> (bC = [] \<longrightarrow> NewIIRFilter bC aC = Panic ''IIRFilter: b coefficients cannot be empty'')
   \<and> (bC \<noteq> [] \<and> aC = [] \<longrightarrow>
        NewIIRFilter bC aC = Panic ''IIRFilter: a coefficients cannot be empty'')
   \<and> (fc \<le> 0 \<or> fc \<ge> 1 / 2 \<longrightarrow>
        NewFirstOrderLowPass fc = Panic cutoff_panic
        \<and> NewFirstOrderHighPass fc = Panic cutoff_panic
        \<and> NewFirstOrderLowPassExp fc = Panic cutoff_panic
        \<and> NewFirstOrderHighPassExp fc = Panic cutoff_panic
        \<and> NewSecondOrderLowPass fc Q = Panic cutoff_panic
        \<and> NewSecondOrderHighPass fc Q = Panic cutoff_panic
        \<and> NewSecondOrderBandPass fc Q = Panic cutoff_panic)
   \<and> (0 < fc \<and> fc < 1 / 2 \<and> Q \<le> 0 \<longrightarrow>
        NewSecondOrderLowPass fc Q = Panic q_panic
        \<and> NewSecondOrderHighPass fc Q = Panic q_panic
        \<and> NewSecondOrderBandPass fc Q = Panic q_panic)
   \<and> \<not> is_Error (NewFIRFilter cs) \<and> \<not> is_Error (NewIIRFilter bC aC)
   \<and> \<not> is_Error (NewFirstOrderLowPass fc) \<and> \<not> is_Error (NewFirstOrderHighPass fc)
   \<and> \<not> is_Error (NewFirstOrderLowPassExp fc) \<and> \<not> is_Error (NewFirstOrderHighPassExp fc)
   \<and> \<not> is_Error (NewSecondOrderLowPass fc Q) \<and> \<not> is_Error (NewSecondOrderHighPass fc Q)
   \<and> \<not> is_Error (NewSecondOrderBandPass fc Q)"
proof -
  have iir: "\<not> is_Error (NewIIRFilter b a)" for b a
    by (simp add: NewIIRFilter_def Let_def)
  have 1: "cs = [] \<longrightarrow> NewFIRFilter cs = Panic ''FIRFilter: coefficients cannot be empty''"
    by (simp add: NewFIRFilter_def)
  have 2: "bC = [] \<longrightarrow> NewIIRFilter bC aC = Panic ''IIRFilter: b coefficients cannot be empty''"
    by (simp add: NewIIRFilter_def)
  have 3: "bC \<noteq> [] \<and> aC = [] \<longrightarrow>
        NewIIRFilter bC aC = Panic ''IIRFilter: a coefficients cannot be empty''"
    by (simp add: NewIIRFilter_def)
  have 4: "fc \<le> 0 \<or> fc \<ge> 1 / 2 \<longrightarrow>
        NewFirstOrderLowPass fc = Panic cutoff_panic
        \<and> NewFirstOrderHighPass fc = Panic cutoff_panic
        \<and> NewFirstOrderLowPassExp fc = Panic cutoff_panic
        \<and> NewFirstOrderHighPassExp fc = Panic cutoff_panic
        \<and> NewSecondOrderLowPass fc Q = Panic cutoff_panic
        \<and> NewSecondOrderHighPass fc Q = Panic cutoff_panic
        \<and> NewSecondOrderBandPass fc Q = Panic cutoff_panic"
    by (simp add: NewFirstOrderLowPass_def NewFirstOrderHighPass_def
        NewFirstOrderLowPassExp_def NewFirstOrderHighPassExp_def NewSecondOrderLowPass_def
        NewSecondOrderHighPass_def NewSecondOrderBandPass_def)
  have 5: "0 < fc \<and> fc < 1 / 2 \<and> Q \<le> 0 \<longrightarrow>
        NewSecondOrderLowPass fc Q = Panic q_panic
        \<and> NewSecondOrderHighPass fc Q = Panic q_panic
        \<and> NewSecondOrderBandPass fc Q = Panic q_panic"
    by (simp add: NewSecondOrderLowPass_def NewSecondOrderHighPass_def
        NewSecondOrderBandPass_def)
  have 6: "\<not> is_Error (NewFIRFilter cs)"
    by (simp add: NewFIRFilter_def)
  have 7: "\<not> is_Error (NewFirstOrderLowPass fc)" "\<not> is_Error (NewFirstOrderHighPass fc)"
    "\<not> is_Error (NewFirstOrderLowPassExp fc)" "\<not> is_Error (NewFirstOrderHighPassExp fc)"
    by (simp_all add: NewFirstOrderLowPass_def NewFirstOrderHighPass_def
        NewFirstOrderLowPassExp_def NewFirstOrderHighPassExp_def Let_def iir)
  have 8: "\<not> is_Error (NewSecondOrderLowPass fc Q)" "\<not> is_Error (NewSecondOrderHighPass fc Q)"
    "\<not> is_Error (NewSecondOrderBandPass fc Q)"
    by (simp_all add: NewSecondOrderLowPass_def NewSecondOrderHighPass_def
        NewSecondOrderBandPass_def biquad_def Let_def iir)
  show ?thesis using 1 2 3 4 5 6 7 8 iir[of bC aC] by blast
qed

text \<open>The amended claim at an empty slice, at the cutoff \<open>0.5\<close>, and at \<open>Q = 0\<close> with the
  cutoff \<open>0.25\<close>.\<close>

theorem construction_failures_panic_witness:
  "NewFIRFilter [] = Panic ''FIRFilter: coefficients cannot be empty''
   \<and> NewIIRFilter [] [1] = Panic ''IIRFilter: b coefficients cannot be empty''
   \<and> NewIIRFilter [1] [] = Panic ''IIRFilter: a coefficients cannot be empty''
   \<and> NewFirstOrderLowPass (1 / 2) = Panic cutoff_panic
   \<and> NewSecondOrderBandPass (1 / 2) 1 = Panic cutoff_panic
   \<and> NewSecondOrderLowPass (1 / 4) 0 = Panic q_panic"
proof -
  have a: "NewFIRFilter [] = Panic ''FIRFilter: coefficients cannot be empty''
     \<and> NewIIRFilter [] [1] = Panic ''IIRFilter: b coefficients cannot be empty''
     \<and> NewFirstOrderLowPass (1 / 2) = Panic cutoff_panic
     \<and> NewSecondOrderBandPass (1 / 2) 1 = Panic cutoff_panic"
    using construction_failures_panic[of "[]" "[]" "[1]" "1 / 2" 1] by simp
  have b: "NewIIRFilter [1] [] = Panic ''IIRFilter: a coefficients cannot be empty''"
    using construction_failures_panic[of "[]" "[1]" "[]" "1 / 2" 1] by simp
  have c: "NewSecondOrderLowPass (1 / 4) 0 = Panic q_panic"
    using construction_failures_panic[of "[]" "[1]" "[]" "1 / 4" 0] by simp
  show ?thesis using a b c by simp
qed


section \<open>Properties of the Goertzel detector\<close>

lemma goertzel_New_counter:
  assumes "NewGoertzelFilter fl freq samplingRate N = Ok gf"
  shows "gf_n gf = 0 \<and> 0 < totalN gf \<and> q1 gf = 0 \<and> q2 gf = 0"
  using assms by (auto simp: NewGoertzelFilter_def Let_def split: if_splits)

lemma goertzel_New_exact_inv:
  assumes "NewGoertzelFilter exact freq samplingRate N = Ok gf"
  shows "goertzel_inv gf"
  using assms by (auto simp: NewGoertzelFilter_def Let_def goertzel_inv_def exact_def split: if_splits)

lemma goertzel_Process_Ok:
  assumes "Process fl (Some gf) input = Ok gf'"
  shows "gf_n gf < totalN gf \<and>
         gf' = gf\<lparr>q2 := q1 gf, q1 := fl (fl (input + fl (coeff gf * q1 gf)) - q2 gf),
                  gf_n := gf_n gf + 1\<rparr>"
  using assms by (auto simp: Process_def Let_def split: if_splits)

lemma goertzel_Reset_Ok:
  assumes "Reset (Some gf) = Ok gf'"
  shows "gf' = gf\<lparr>q1 := 0, q2 := 0, gf_n := 0\<rparr>"
  using assms by (auto simp: Reset_def)

lemma goertzel_counter:
  "goertzel_reachable fl gf \<Longrightarrow> 0 \<le> gf_n gf \<and> gf_n gf \<le> totalN gf \<and> 0 < totalN gf"
proof (induction rule: goertzel_reachable.induct)
  case (gz_new freq samplingRate N gf)
  then show ?case using goertzel_New_counter by fastforce
next
  case (gz_process gf input gf')
  then show ?case using goertzel_Process_Ok[OF gz_process.hyps(2)] by auto
next
  case (gz_reset gf gf')
  then show ?case using goertzel_Reset_Ok[OF gz_reset.hyps(2)] by auto
qed

lemma goertzel_exact_inv:
  "goertzel_reachable exact gf \<Longrightarrow> goertzel_inv gf"
proof (induction rule: goertzel_reachable.induct)
  case (gz_new freq samplingRate N gf)
  then show ?case by (rule goertzel_New_exact_inv)
next
  case (gz_process gf input gf')
  then show ?case using goertzel_Process_Ok[OF gz_process.hyps(2)] by (auto simp: goertzel_inv_def)
next
  case (gz_reset gf gf')
  then show ?case using goertzel_Reset_Ok[OF gz_reset.hyps(2)] by (auto simp: goertzel_inv_def)
qed

text \<open>
  Claim C5. On a detector, \<^verbatim>\<open>Process\<close> returns the error
  \<^verbatim>\<open>InvalidStateError{"all samples have already been processed"}\<close> exactly when
  \<open>n \<ge> totalN\<close>, and it returns no other error; when \<open>n < totalN\<close> it succeeds with
  \<open>q2\<close> set to the old \<open>q1\<close>, \<open>q1\<close> set to \<open>input + coeff * q1 - q2\<close> and \<open>n\<close> incremented.
  Hence \<open>0 \<le> n \<le> totalN\<close> in every state of a constructed detector, and a detector with
  \<open>n = totalN\<close> is complete and refuses every further sample. This holds under every
  rounding of the arithmetic.
\<close>

theorem goertzel_process_capacity:
  "(Process fl (Some gf) input =
      Error (InvalidStateError ''all samples have already been processed'')
        \<longleftrightarrow> gf_n gf \<ge> totalN gf)
   \<and> (is_Error (Process fl (Some gf) input) \<longleftrightarrow> gf_n gf \<ge> totalN gf)
   \<and> (gf_n gf < totalN gf \<longrightarrow>
        Process fl (Some gf) input =
          Ok (gf\<lparr>q2 := q1 gf, q1 := fl (fl (input + fl (coeff gf * q1 gf)) - q2 gf),
                 gf_n := gf_n gf + 1\<rparr>))
   \<and> (goertzel_reachable fl gf \<longrightarrow> 0 \<le> gf_n gf \<and> gf_n gf \<le> totalN gf)
   \<and> (goertzel_reachable fl gf \<and> gf_n gf = totalN gf \<longrightarrow>
        IsComplete (Some gf) \<and>
        Process fl (Some gf) input =
          Error (InvalidStateError ''all samples have already been processed''))"
proof (intro conjI impI)
  show "(Process fl (Some gf) input =
      Error (InvalidStateError ''all samples have already been processed''))
        = (gf_n gf \<ge> totalN gf)"
    by (simp add: Process_def Let_def)
  show "is_Error (Process fl (Some gf) input) = (gf_n gf \<ge> totalN gf)"
    by (simp add: Process_def Let_def)
  show "Process fl (Some gf) input =
          Ok (gf\<lparr>q2 := q1 gf, q1 := fl (fl (input + fl (coeff gf * q1 gf)) - q2 gf),
                 gf_n := gf_n gf + 1\<rparr>)" if "gf_n gf < totalN gf"
    using that by (simp add: Process_def Let_def)
  show "0 \<le> gf_n gf" "gf_n gf \<le> totalN gf" if "goertzel_reachable fl gf"
    using goertzel_counter[OF that] by simp_all
  show "IsComplete (Some gf)" if "goertzel_reachable fl gf \<and> gf_n gf = totalN gf"
    using that by (simp add: IsComplete_def)
  show "Process fl (Some gf) input =
          Error (InvalidStateError ''all samples have already been processed'')"
    if "goertzel_reachable fl gf \<and> gf_n gf = totalN gf"
    using that by (simp add: Process_def)
qed

lemma goertzel_example_new:
  "NewGoertzelFilter exact 1 8 2 =
     Ok \<lparr>gf_k = 0, gf_w = 0, cosW = 1, sinW = 0, q1 = 0, q2 = 0, gf_n = 0, totalN = 2, coeff = 2\<rparr>"
  by (simp add: NewGoertzelFilter_def Let_def exact_def go_int_def)

lemma goertzel_example_run:
  "Process exact (Some \<lparr>gf_k = 0, gf_w = 0, cosW = 1, sinW = 0, q1 = 0, q2 = 0, gf_n = 0,
        totalN = 2, coeff = 2\<rparr>) 3 =
     Ok \<lparr>gf_k = 0, gf_w = 0, cosW = 1, sinW = 0, q1 = 3, q2 = 0, gf_n = 1, totalN = 2, coeff = 2\<rparr>"
  "Process exact (Some \<lparr>gf_k = 0, gf_w = 0, cosW = 1, sinW = 0, q1 = 3, q2 = 0, gf_n = 1,
        totalN = 2, coeff = 2\<rparr>) 5 =
     Ok \<lparr>gf_k = 0, gf_w = 0, cosW = 1, sinW = 0, q1 = 11, q2 = 3, gf_n = 2, totalN = 2, coeff = 2\<rparr>"
  by (simp_all add: Process_def Let_def exact_def)

lemma goertzel_example_reachable:
  "goertzel_reachable exact
     \<lparr>gf_k = 0, gf_w = 0, cosW = 1, sinW = 0, q1 = 11, q2 = 3, gf_n = 2, totalN = 2, coeff = 2\<rparr>"
  by (rule gz_process[OF gz_process[OF gz_new[OF goertzel_example_new]
        goertzel_example_run(1)] goertzel_example_run(2)])

text \<open>The theorem at the detector built for \<open>freq = 1\<close>, \<open>samplingRate = 8\<close>, \<open>totalN = 2\<close>: the
  fresh detector takes the sample \<open>3\<close>; after the samples \<open>3\<close> and \<open>5\<close> it is complete and
  refuses the sample \<open>7\<close>.\<close>

theorem goertzel_process_capacity_witness:
  "gf_n \<lparr>gf_k = 0, gf_w = 0, cosW = 1, sinW = 0, q1 = 0, q2 = 0, gf_n = 0, totalN = 2, coeff = 2\<rparr>
     < totalN \<lparr>gf_k = 0, gf_w = 0, cosW = 1, sinW = 0, q1 = 0, q2 = 0, gf_n = 0, totalN = 2,
         coeff = 2\<rparr>
   \<and> Process exact (Some \<lparr>gf_k = 0, gf_w = 0, cosW = 1, sinW = 0, q1 = 0, q2 = 0, gf_n = 0,
        totalN = 2, coeff = 2\<rparr>) 3 =
       Ok \<lparr>gf_k = 0, gf_w = 0, cosW = 1, sinW = 0, q1 = 3, q2 = 0, gf_n = 1, totalN = 2,
           coeff = 2\<rparr>
   \<and> goertzel_reachable exact
       \<lparr>gf_k = 0, gf_w = 0, cosW = 1, sinW = 0, q1 = 11, q2 = 3, gf_n = 2, totalN = 2, coeff = 2\<rparr>
   \<and> IsComplete (Some \<lparr>gf_k = 0, gf_w = 0, cosW = 1, sinW = 0, q1 = 11, q2 = 3, gf_n = 2,
        totalN = 2, coeff = 2\<rparr>)
   \<and> Process exact (Some \<lparr>gf_k = 0, gf_w = 0, cosW = 1, sinW = 0, q1 = 11, q2 = 3, gf_n = 2,
        totalN = 2, coeff = 2\<rparr>) 7 =
       Error (InvalidStateError ''all samples have already been processed'')"
proof -
  let ?g0 = "\<lparr>gf_k = 0, gf_w = 0, cosW = 1, sinW = 0, q1 = 0, q2 = 0, gf_n = 0, totalN = 2,
      coeff = 2\<rparr>"
  let ?g2 = "\<lparr>gf_k = 0, gf_w = 0, cosW = 1, sinW = 0, q1 = 11, q2 = 3, gf_n = 2, totalN = 2,
      coeff = 2\<rparr>"
  have a: "Process exact (Some ?g0) 3 =
       Ok \<lparr>gf_k = 0, gf_w = 0, cosW = 1, sinW = 0, q1 = 3, q2 = 0, gf_n = 1, totalN = 2,
           coeff = 2\<rparr>"
    using goertzel_process_capacity[of exact ?g0 3] by (simp add: exact_def)
  have b: "IsComplete (Some ?g2) \<and> Process exact (Some ?g2) 7 =
       Error (InvalidStateError ''all samples have already been processed'')"
    using goertzel_process_capacity[of exact ?g2 7] goertzel_example_reachable by simp
  show ?thesis using a b goertzel_example_reachable by simp
qed

lemma radicand_identity:
  assumes "coeff gf = 2 * cos (gf_w gf)"
  shows "radicand gf = (q1 gf - q2 gf * cos (gf_w gf))\<^sup>2 + (q2 gf * sin (gf_w gf))\<^sup>2"
proof -
  define c where "c = cos (gf_w gf)"
  define s where "s = sin (gf_w gf)"
  have cs: "s * s = 1 - c * c"
  proof -
    have "(sin (gf_w gf))\<^sup>2 + (cos (gf_w gf))\<^sup>2 = 1" by (rule sin_cos_squared_add)
    then have "s * s + c * c = 1" by (simp only: power2_eq_square c_def s_def)
    then show ?thesis by linarith
  qed
  have "(q1 gf - q2 gf * c)\<^sup>2 + (q2 gf * s)\<^sup>2
      = q1 gf * q1 gf - 2 * c * q1 gf * q2 gf + q2 gf * q2 gf * (c * c)
        + q2 gf * q2 gf * (s * s)"
    by (simp add: power2_eq_square algebra_simps)
  also have "\<dots> = q1 gf * q1 gf + q2 gf * q2 gf - 2 * c * q1 gf * q2 gf"
    unfolding cs by (simp add: algebra_simps)
  finally show ?thesis by (simp add: radicand_def assms c_def s_def)
qed

text \<open>
  Claim C10. With \<open>coeff = 2 * cos w\<close>, which construction establishes and no method
  changes, the radicand \<open>q1\<^sup>2 + q2\<^sup>2 - coeff * q1 * q2\<close> of \<^verbatim>\<open>GetMagnitude\<close> equals
  \<open>(q1 - q2 * cos w)\<^sup>2 + (q2 * sin w)\<^sup>2\<close> for all \<open>q1\<close> and \<open>q2\<close> and is not negative. In
  exact arithmetic the branch of \<^verbatim>\<open>GetMagnitude\<close> for a negative radicand is therefore
  never taken in a state of a constructed detector: the result is \<open>2 * sqrt radicand / totalN\<close>.
\<close>

theorem goertzel_radicand_nonnegative:
  "(coeff gf = 2 * cos (gf_w gf) \<longrightarrow>
      radicand gf = (q1 gf - q2 gf * cos (gf_w gf))\<^sup>2 + (q2 gf * sin (gf_w gf))\<^sup>2
      \<and> 0 \<le> radicand gf)
   \<and> (goertzel_reachable exact gf \<longrightarrow>
        coeff gf = 2 * cos (gf_w gf) \<and> \<not> radicand gf < 0
        \<and> (gf_n gf \<noteq> 0 \<longrightarrow>
             GetMagnitude exact (Some gf) =
               Ok (2 * sqrt (radicand gf) / real_of_int (totalN gf))))"
proof (intro conjI impI)
  assume c: "coeff gf = 2 * cos (gf_w gf)"
  show "radicand gf = (q1 gf - q2 gf * cos (gf_w gf))\<^sup>2 + (q2 gf * sin (gf_w gf))\<^sup>2"
    by (rule radicand_identity[OF c])
  then show "0 \<le> radicand gf" by simp
next
  assume r: "goertzel_reachable exact gf"
  then have inv: "goertzel_inv gf" by (rule goertzel_exact_inv)
  then show c: "coeff gf = 2 * cos (gf_w gf)" by (simp add: goertzel_inv_def)
  have nn: "0 \<le> radicand gf" using radicand_identity[OF c] by simp
  then show "\<not> radicand gf < 0" by simp
  show "GetMagnitude exact (Some gf) = Ok (2 * sqrt (radicand gf) / real_of_int (totalN gf))"
    if "gf_n gf \<noteq> 0"
    using that nn by (simp add: GetMagnitude_def Let_def exact_def radicand_def)
qed

text \<open>The theorem at the detector for \<open>freq = 1\<close>, \<open>samplingRate = 8\<close>, \<open>totalN = 2\<close> after the
  samples \<open>3\<close> and \<open>5\<close>: the radicand is \<open>121 + 9 - 66 = 64\<close>.\<close>

theorem goertzel_radicand_nonnegative_witness:
  "coeff \<lparr>gf_k = 0, gf_w = 0, cosW = 1, sinW = 0, q1 = 11, q2 = 3, gf_n = 2, totalN = 2,
       coeff = 2\<rparr> = 2 * cos 0
   \<and> goertzel_reachable exact
       \<lparr>gf_k = 0, gf_w = 0, cosW = 1, sinW = 0, q1 = 11, q2 = 3, gf_n = 2, totalN = 2, coeff = 2\<rparr>
   \<and> radicand
       \<lparr>gf_k = 0, gf_w = 0, cosW = 1, sinW = 0, q1 = 11, q2 = 3, gf_n = 2, totalN = 2, coeff = 2\<rparr>
       = 64
   \<and> GetMagnitude exact (Some
       \<lparr>gf_k = 0, gf_w = 0, cosW = 1, sinW = 0, q1 = 11, q2 = 3, gf_n = 2, totalN = 2, coeff = 2\<rparr>)
       = Ok 8"
proof -
  let ?g2 = "\<lparr>gf_k = 0, gf_w = 0, cosW = 1, sinW = 0, q1 = 11, q2 = 3, gf_n = 2, totalN = 2,
      coeff = 2\<rparr>"
  note inst = goertzel_radicand_nonnegative[of ?g2]
  have rad: "radicand ?g2 = 64" using inst by simp
  have "sqrt 64 = sqrt (8\<^sup>2)" by simp
  then have s: "sqrt 64 = 8" by (simp only: real_sqrt_abs abs_numeral)
  have "GetMagnitude exact (Some ?g2) = Ok 8"
    using inst goertzel_example_reachable by (simp add: rad s)
  then show ?thesis using rad goertzel_example_reachable by simp
qed


subsection \<open>The two magnitude formulas under rounding\<close>

lemma round_half_even_int: "round_half_even (of_int m) = m"
  by (simp add: round_half_even_def)

lemma float64_zero: "float64 0 = 0"
  by (simp add: float64_def)

lemma float64_at_exponent:
  assumes "2 powr of_int n \<le> \<bar>x\<bar>" and "\<bar>x\<bar> < 2 powr of_int (n + 1)"
  shows "float64 x =
    of_int (round_half_even (x / 2 powr of_int (n - 52))) * 2 powr of_int (n - 52)"
proof -
  have pos: "0 < \<bar>x\<bar>" using assms(1) powr_gt_zero[of 2 "of_int n"] by linarith
  then have nz: "x \<noteq> 0" by auto
  have "\<lfloor>log 2 \<bar>x\<bar>\<rfloor> = n"
    using floor_log_eq_powr_iff[of "\<bar>x\<bar>" 2 n] pos assms by simp
  then show ?thesis using nz by (simp add: float64_def Let_def)
qed

lemma float64_representable:
  assumes m: "2 ^ 52 \<le> \<bar>m\<bar>" "\<bar>m\<bar> < 2 ^ 53" and x: "x = of_int m * 2 powr of_int e"
  shows "float64 x = x"
proof -
  have ax: "\<bar>x\<bar> = of_int \<bar>m\<bar> * 2 powr of_int e"
    unfolding x by (simp add: abs_mult)
  have lo: "2 powr of_int (e + 52) \<le> \<bar>x\<bar>"
  proof -
    have "(2::real) powr of_int (e + 52) = 2 ^ 52 * 2 powr of_int e"
      by (simp add: powr_add)
    also have "\<dots> \<le> of_int \<bar>m\<bar> * 2 powr of_int e"
    proof (rule mult_right_mono)
      have "(2::int) ^ 52 \<le> \<bar>m\<bar>" by (rule m(1))
      then have "real_of_int (2 ^ 52) \<le> real_of_int \<bar>m\<bar>" by (simp only: of_int_le_iff)
      then show "(2::real) ^ 52 \<le> of_int \<bar>m\<bar>" by simp
    qed simp
    finally show ?thesis by (simp only: ax)
  qed
  have hi: "\<bar>x\<bar> < 2 powr of_int (e + 52 + 1)"
  proof -
    have "real_of_int \<bar>m\<bar> < real_of_int (2 ^ 53)" using m(2) by (simp only: of_int_less_iff)
    then have "real_of_int \<bar>m\<bar> < 2 ^ 53" by simp
    then have "real_of_int \<bar>m\<bar> * 2 powr of_int e < 2 ^ 53 * 2 powr real_of_int e"
      by (intro mult_strict_right_mono) simp_all
    also have "\<dots> = (2::real) powr of_int (e + 52 + 1)"
      by (simp add: powr_add)
    finally show ?thesis by (simp only: ax)
  qed
  have "x / 2 powr of_int (e + 52 - 52) = of_int m"
    unfolding x by simp
  then show ?thesis
    using float64_at_exponent[OF lo hi] by (simp add: round_half_even_int x)
qed

lemma float64_pow2: "float64 (2 ^ n) = 2 ^ n"
proof (rule float64_representable[of "2 ^ 52" _ "int n - 52"])
  show "(2::real) ^ n = of_int (2 ^ 52) * 2 powr of_int (int n - 52)"
    by (simp add: powr_diff powr_realpow)
qed simp_all

lemma float64_examples:
  "float64 1 = 1" "float64 2 = 2" "float64 4 = 4"
  "float64 (1 / 4) = 1 / 4" "float64 (3 / 4) = 3 / 4"
proof -
  show "float64 1 = 1" using float64_pow2[of 0] by simp
  show "float64 2 = 2" using float64_pow2[of 1] by simp
  show "float64 4 = 4" using float64_pow2[of 2] by simp
  show "float64 (1 / 4) = 1 / 4"
    by (rule float64_representable[of "2 ^ 52" _ "- 54"]) (simp_all add: powr_minus_divide)
  show "float64 (3 / 4) = 3 / 4"
    by (rule float64_representable[of "3 * 2 ^ 51" _ "- 53"]) (simp_all add: powr_minus_divide)
qed

lemma float64_example_new:
  "NewGoertzelFilter float64 1 8 2 =
     Ok \<lparr>gf_k = 0, gf_w = 0, cosW = 1, sinW = 0, q1 = 0, q2 = 0, gf_n = 0, totalN = 2, coeff = 2\<rparr>"
  by (simp add: NewGoertzelFilter_def Let_def go_int_def float64_examples float64_zero)

lemma float64_big:
  "float64 (2 ^ 60 + 2 ^ 8) = 2 ^ 60 + 2 ^ 8"
  "float64 (2 ^ 61 + 2 ^ 9) = 2 ^ 61 + 2 ^ 9"
  "float64 (2 ^ 121 + 2 ^ 69) = 2 ^ 121 + 2 ^ 69"
proof -
  show "float64 (2 ^ 60 + 2 ^ 8) = 2 ^ 60 + 2 ^ 8"
    by (rule float64_representable[of "2 ^ 52 + 1" _ 8]) simp_all
  show "float64 (2 ^ 61 + 2 ^ 9) = 2 ^ 61 + 2 ^ 9"
    by (rule float64_representable[of "2 ^ 52 + 1" _ 9]) simp_all
  show "float64 (2 ^ 121 + 2 ^ 69) = 2 ^ 121 + 2 ^ 69"
    by (rule float64_representable[of "2 ^ 52 + 1" _ 69]) simp_all
qed

lemma float64_square_rounds:
  "float64 ((2 ^ 60 + 2 ^ 8) * (2 ^ 60 + 2 ^ 8)) = 2 ^ 120 + 2 ^ 69"
proof -
  let ?x = "(2 ^ 60 + 2 ^ 8) * (2 ^ 60 + 2 ^ 8) :: real"
  have x: "?x = 2 ^ 120 + 2 ^ 69 + 2 ^ 16" by simp
  have lo: "2 powr of_int 120 \<le> \<bar>?x\<bar>" by simp
  have hi: "\<bar>?x\<bar> < 2 powr of_int (120 + 1)" by simp
  have q: "?x / 2 powr of_int (120 - 52) = of_int (2 ^ 52 + 2) + 1 / 2 ^ 52" by simp
  have r: "round_half_even (of_int (2 ^ 52 + 2) + 1 / 2 ^ 52) = 2 ^ 52 + 2"
    by (simp add: round_half_even_def)
  show ?thesis
    unfolding float64_at_exponent[OF lo hi] q r by simp
qed

lemma float64_inputs:
  "float64 (2 ^ 8 - 2 ^ 60) = 2 ^ 8 - 2 ^ 60"
  by (rule float64_representable[of "- (2 ^ 53 - 2)" _ 7]) simp_all

lemmas float64_values =
  float64_zero float64_examples
  float64_pow2[of 8, simplified] float64_pow2[of 9, simplified] float64_pow2[of 16, simplified]
  float64_pow2[of 60, simplified] float64_pow2[of 61, simplified]
  float64_pow2[of 120, simplified]
  float64_big[simplified] float64_square_rounds[simplified] float64_inputs[simplified]

lemma float64_process_1:
  "Process float64
     (Some \<lparr>gf_k = 0, gf_w = 0, cosW = 1, sinW = 0, q1 = 0, q2 = 0, gf_n = 0, totalN = 2,
            coeff = 2\<rparr>) (2 ^ 60) =
   Ok \<lparr>gf_k = 0, gf_w = 0, cosW = 1, sinW = 0, q1 = 2 ^ 60, q2 = 0, gf_n = 1, totalN = 2,
       coeff = 2\<rparr>"
  by (simp add: Process_def Let_def float64_values)

lemma float64_process_2:
  "Process float64
     (Some \<lparr>gf_k = 0, gf_w = 0, cosW = 1, sinW = 0, q1 = 2 ^ 60, q2 = 0, gf_n = 1, totalN = 2,
            coeff = 2\<rparr>) (2 ^ 8 - 2 ^ 60) =
   Ok \<lparr>gf_k = 0, gf_w = 0, cosW = 1, sinW = 0, q1 = 2 ^ 60 + 2 ^ 8, q2 = 2 ^ 60, gf_n = 2,
       totalN = 2, coeff = 2\<rparr>"
  by (simp add: Process_def Let_def float64_values)

lemma float64_magnitude:
  "GetMagnitude float64
     (Some \<lparr>gf_k = 0, gf_w = 0, cosW = 1, sinW = 0, q1 = 2 ^ 60 + 2 ^ 8, q2 = 2 ^ 60, gf_n = 2,
       totalN = 2, coeff = 2\<rparr>) = Ok 0"
  by (simp add: GetMagnitude_def Let_def float64_values)

lemma float64_magnitude_optimized:
  "GetMagnitudeOptimized float64
     (Some \<lparr>gf_k = 0, gf_w = 0, cosW = 1, sinW = 0, q1 = 2 ^ 60 + 2 ^ 8, q2 = 2 ^ 60, gf_n = 2,
       totalN = 2, coeff = 2\<rparr>) = Ok 256"
proof -
  have "sqrt 65536 = sqrt (256\<^sup>2)" by simp
  then have s: "sqrt 65536 = 256" by (simp only: real_sqrt_abs abs_numeral)
  show ?thesis
    by (simp add: GetMagnitudeOptimized_def Let_def float64_values s)
qed

text \<open>
  Claim C4, as the spec states it, fails under \<^verbatim>\<open>float64\<close> rounding. The detector built
  by \<^verbatim>\<open>NewGoertzelFilter(1, 8, 2)\<close> has \<open>k = 0\<close>, \<open>cosW = 1\<close>, \<open>sinW = 0\<close> and \<open>coeff = 2\<close>.
  After the samples \<open>2^60\<close> and \<open>2^8 - 2^60\<close> its state is \<open>q1 = 2^60 + 2^8\<close>, \<open>q2 = 2^60\<close>.
  In \<^verbatim>\<open>GetMagnitude\<close> the square \<open>q1 * q1 = 2^120 + 2^69 + 2^16\<close> is rounded to
  \<open>2^120 + 2^69\<close>, the radicand cancels to \<open>0\<close> and the result is \<open>0\<close>;
  \<^verbatim>\<open>GetMagnitudeOptimized\<close> computes \<open>q1 - q2 = 2^8\<close> without error and returns \<open>256\<close>.
  Every product and sum involved is the same whether or not a multiplication is fused
  with the following addition.
\<close>

theorem goertzel_float64_magnitudes_differ:
  "NewGoertzelFilter float64 1 8 2 =
     Ok \<lparr>gf_k = 0, gf_w = 0, cosW = 1, sinW = 0, q1 = 0, q2 = 0, gf_n = 0, totalN = 2,
          coeff = 2\<rparr>
   \<and> Process float64 (Some \<lparr>gf_k = 0, gf_w = 0, cosW = 1, sinW = 0, q1 = 0, q2 = 0, gf_n = 0, totalN = 2,
          coeff = 2\<rparr>) (2 ^ 60) =
       Ok \<lparr>gf_k = 0, gf_w = 0, cosW = 1, sinW = 0, q1 = 2 ^ 60, q2 = 0, gf_n = 1, totalN = 2,
          coeff = 2\<rparr>
   \<and> Process float64 (Some \<lparr>gf_k = 0, gf_w = 0, cosW = 1, sinW = 0, q1 = 2 ^ 60, q2 = 0, gf_n = 1, totalN = 2,
          coeff = 2\<rparr>) (2 ^ 8 - 2 ^ 60) =
       Ok \<lparr>gf_k = 0, gf_w = 0, cosW = 1, sinW = 0, q1 = 2 ^ 60 + 2 ^ 8, q2 = 2 ^ 60, gf_n = 2,
          totalN = 2, coeff = 2\<rparr>
   \<and> GetMagnitude float64 (Some \<lparr>gf_k = 0, gf_w = 0, cosW = 1, sinW = 0, q1 = 2 ^ 60 + 2 ^ 8, q2 = 2 ^ 60, gf_n = 2,
          totalN = 2, coeff = 2\<rparr>) = Ok 0
   \<and> GetMagnitudeOptimized float64 (Some \<lparr>gf_k = 0, gf_w = 0, cosW = 1, sinW = 0, q1 = 2 ^ 60 + 2 ^ 8, q2 = 2 ^ 60, gf_n = 2,
          totalN = 2, coeff = 2\<rparr>) = Ok 256
   \<and> \<not> \<bar>0 - 256\<bar> \<le> (1 / 10 ^ 10 :: real)"
  using float64_example_new float64_process_1 float64_process_2 float64_magnitude
    float64_magnitude_optimized
  by simp

text \<open>
  Claim C4, amended. In every state of a constructed detector that has processed at
  least one sample, evaluated in exact arithmetic, \<^verbatim>\<open>GetMagnitude\<close> and
  \<^verbatim>\<open>GetMagnitudeOptimized\<close> both succeed and return the same value.
\<close>

theorem goertzel_magnitudes_equal_exact:
  assumes "goertzel_reachable exact gf" and "gf_n gf \<noteq> 0"
  shows "\<exists>m. GetMagnitude exact (Some gf) = Ok m \<and> GetMagnitudeOptimized exact (Some gf) = Ok m"
proof -
  have inv: "goertzel_inv gf" using assms(1) by (rule goertzel_exact_inv)
  then have c: "coeff gf = 2 * cos (gf_w gf)" and cw: "cosW gf = cos (gf_w gf)"
    and sw: "sinW gf = sin (gf_w gf)"
    by (simp_all add: goertzel_inv_def)
  have id: "radicand gf = (q1 gf - q2 gf * cosW gf)\<^sup>2 + (q2 gf * sinW gf)\<^sup>2"
    using radicand_identity[OF c] by (simp add: cw sw)
  then have nn: "0 \<le> radicand gf" by simp
  have 1: "GetMagnitude exact (Some gf) = Ok (2 * sqrt (radicand gf) / real_of_int (totalN gf))"
    using assms(2) nn by (simp add: GetMagnitude_def Let_def exact_def radicand_def)
  have prod: "(q1 gf - q2 gf * cosW gf) * (q1 gf - q2 gf * cosW gf)
      + q2 gf * sinW gf * (q2 gf * sinW gf) = radicand gf"
    unfolding id by (simp add: power2_eq_square)
  have 2: "GetMagnitudeOptimized exact (Some gf) =
      Ok (2 * sqrt (radicand gf) / real_of_int (totalN gf))"
    using assms(2) nn
    by (simp add: GetMagnitudeOptimized_def Let_def exact_def prod)
  show ?thesis using 1 2 by simp
qed

text \<open>The amended claim at the detector for \<open>freq = 1\<close>, \<open>samplingRate = 8\<close>, \<open>totalN = 2\<close> after
  the samples \<open>3\<close> and \<open>5\<close>.\<close>

theorem goertzel_magnitudes_equal_exact_witness:
  "goertzel_reachable exact
       \<lparr>gf_k = 0, gf_w = 0, cosW = 1, sinW = 0, q1 = 11, q2 = 3, gf_n = 2, totalN = 2, coeff = 2\<rparr>
   \<and> gf_n \<lparr>gf_k = 0, gf_w = 0, cosW = 1, sinW = 0, q1 = 11, q2 = 3, gf_n = 2, totalN = 2,
        coeff = 2\<rparr> \<noteq> 0
   \<and> (\<exists>m. GetMagnitude exact (Some
       \<lparr>gf_k = 0, gf_w = 0, cosW = 1, sinW = 0, q1 = 11, q2 = 3, gf_n = 2, totalN = 2, coeff = 2\<rparr>)
         = Ok m
       \<and> GetMagnitudeOptimized exact (Some
       \<lparr>gf_k = 0, gf_w = 0, cosW = 1, sinW = 0, q1 = 11, q2 = 3, gf_n = 2, totalN = 2, coeff = 2\<rparr>)
         = Ok m)"
  using goertzel_magnitudes_equal_exact[OF goertzel_example_reachable] goertzel_example_reachable
  by simp

section \<open>Properties of the frequency response\<close>















end
